theory Spec2Isabelle
  imports Main "HOL-Library.Product_Lexorder" "HOL-Library.List_Lexorder"
begin

section \<open>Data model: column values, keys, rows, tables\<close>

text \<open>
  Keys and rows are tuples of column values (\<open>ColumnValues\<close> in the C++ sources, arrays on
  the wire). The empty tuple is the table-boundary sentinel.
\<close>

datatype col_value = VNil | VInt int | VStr string

type_synonym ColumnValues = "col_value list"

type_synonym row = "col_value list"

text \<open>
  The database compares key tuples lexicographically, column by column. A column value is
  ranked by its kind first (NULL, number, string), then numerically or by character codes.
\<close>

fun value_rank :: "col_value \<Rightarrow> nat \<times> int \<times> nat list" where
  "value_rank VNil = (0, 0, [])"
| "value_rank (VInt i) = (1, i, [])"
| "value_rank (VStr s) = (2, 0, map of_char s)"

definition key_rank :: "ColumnValues \<Rightarrow> (nat \<times> int \<times> nat list) list" where
  "key_rank k = map value_rank k"

text \<open>
  The table descriptor of the data model: name, data columns in declared order, the key
  columns (positions in the declared column list, in the order the engine sorts by), and
  whether the key is guaranteed unique.
\<close>

record Table =
  name :: string
  columns :: "string list"
  primary_key_columns :: "nat list"
  unique_key :: bool

definition column_value :: "row \<Rightarrow> nat \<Rightarrow> col_value" where
  "column_value r i = (if i < length r then r ! i else VNil)"

definition key_of :: "Table \<Rightarrow> row \<Rightarrow> ColumnValues" where
  "key_of t r = map (column_value r) (primary_key_columns t)"

definition well_formed :: "Table \<Rightarrow> row list \<Rightarrow> bool" where
  "well_formed t stored =
     (list_all (\<lambda>i. i < length (columns t)) (primary_key_columns t) \<and>
      list_all (\<lambda>r. length r = length (columns t)) stored)"

section \<open>Source responder: scanning a key range\<close>

text \<open>
  The key range \<open>(prev_key, last_key]\<close>: open on the left, closed on the right; an empty
  \<open>prev_key\<close> means from the start and an empty \<open>last_key\<close> means to the end.
\<close>

definition in_key_range :: "ColumnValues \<Rightarrow> ColumnValues \<Rightarrow> ColumnValues \<Rightarrow> bool" where
  "in_key_range prev_key last_key k =
     ((prev_key = [] \<or> key_rank prev_key < key_rank k) \<and>
      (last_key = [] \<or> key_rank k \<le> key_rank last_key))"

text \<open>
  For a table whose ordering key is not unique, identical rows are read as one row carrying
  the number of its copies as an extra last column (the endpoint tests on
  \<open>noprimaryjointbl\<close> expect \<open>[3, 10, 2]\<close> for the two stored rows \<open>(3, 10)\<close>).
\<close>

definition group_rows :: "row list \<Rightarrow> row list" where
  "group_rows rs = map (\<lambda>r. r @ [VInt (int (count_list rs r))]) (remdups rs)"

definition rows_in_key_order :: "Table \<Rightarrow> row list \<Rightarrow> row list" where
  "rows_in_key_order t stored =
     (let ordered = sort_key (\<lambda>r. key_rank (key_of t r)) stored
      in if unique_key t then ordered else group_rows ordered)"

text \<open>
  Modelled from the spec: the source responder and its database client (the
  \<open>scan_range(table, prev, last, limit)\<close> capability) are not among the sources, only their
  endpoint tests are. The scan reads the rows of \<open>(prev_key, last_key]\<close> in key order, up to
  the row limit when one is given.
\<close>

definition scan_range :: "Table \<Rightarrow> row list \<Rightarrow> ColumnValues \<Rightarrow> ColumnValues \<Rightarrow> nat option \<Rightarrow> row list" where
  "scan_range t stored prev_key last_key limit =
     (let in_range = filter (\<lambda>r. in_key_range prev_key last_key (key_of t r)) (rows_in_key_order t stored)
      in case limit of None \<Rightarrow> in_range | Some n \<Rightarrow> take n in_range)"

text \<open>
  The HASH reply as the endpoint tests read it off the wire: the request's table, range
  bounds and row limit, followed by the row count and the hash of the rows read.
\<close>

record 'h hash_reply =
  reply_table :: string
  reply_prev_key :: ColumnValues
  reply_last_key :: ColumnValues
  reply_rows_to_hash :: nat
  reply_row_count :: nat
  reply_hash :: 'h

text \<open>
  Modelled from the spec: the responder's HASH handler is not among the sources. It hashes
  the rows the scan reads (the hash algorithm is the parameter \<open>hash_of\<close>) and replies with
  the fields the tests of \<open>HashFromTest\<close> expect.
\<close>

definition handle_hash_command :: "(row list \<Rightarrow> 'h) \<Rightarrow> Table \<Rightarrow> row list \<Rightarrow> ColumnValues \<Rightarrow> ColumnValues \<Rightarrow> nat \<Rightarrow> 'h hash_reply" where
  "handle_hash_command hash_of t stored prev_key last_key rows_to_hash =
     (let rs = scan_range t stored prev_key last_key (Some rows_to_hash)
      in \<lparr> reply_table = name t, reply_prev_key = prev_key, reply_last_key = last_key,
           reply_rows_to_hash = rows_to_hash, reply_row_count = length rs, reply_hash = hash_of rs \<rparr>)"


subsection \<open>The tables of the endpoint tests\<close>

definition footbl :: Table where
  "footbl = \<lparr> name = ''footbl'', columns = [''col1'', ''another_col'', ''col3''],
              primary_key_columns = [0], unique_key = True \<rparr>"

definition footbl_rows :: "row list" where
  "footbl_rows = [[VInt 8, VInt (- 1), VStr ''longer str''], [VInt 2, VInt 10, VStr ''test''],
                  [VInt 100, VInt 0, VStr ''last''], [VInt 4, VNil, VStr ''foo''], [VInt 5, VNil, VNil]]"

definition secondtbl :: Table where
  "secondtbl = \<lparr> name = ''secondtbl'', columns = [''tri'', ''pri1'', ''pri2'', ''sec''],
                 primary_key_columns = [2, 1], unique_key = True \<rparr>"

definition secondtbl_rows :: "row list" where
  "secondtbl_rows = [[VInt 2, VInt 2349174, VStr ''xy'', VInt 1], [VInt 9, VInt 968116383, VStr ''aa'', VInt 9],
                     [VInt 100, VInt 100, VStr ''aa'', VInt 100], [VInt 340, VInt 363401169, VStr ''ab'', VInt 20]]"

definition noprimaryjointbl :: Table where
  "noprimaryjointbl = \<lparr> name = ''noprimaryjointbl'', columns = [''table1_id'', ''table2_id''],
                        primary_key_columns = [1, 0], unique_key = False \<rparr>"

definition noprimaryjointbl_rows :: "row list" where
  "noprimaryjointbl_rows = [[VInt 1, VInt 100], [VInt 1, VInt 101], [VInt 2, VInt 101], [VInt 3, VInt 9],
                            [VInt 3, VInt 10], [VInt 3, VInt 10], [VInt 3, VInt 11]]"

section \<open>Destination worker (\<open>SyncToWorker\<close>)\<close>

subsection \<open>Exceptions, wire commands and calls\<close>

datatype error =
    command_error nat
  | protocol_error
  | input_closed
  | failure string

type_synonym hash = string

text \<open>The commands the per-table loop receives; \<open>OTHER\<close> stands for every other verb.\<close>

datatype command =
    HASH_NEXT ColumnValues ColumnValues hash
  | HASH_FAIL ColumnValues ColumnValues ColumnValues hash
  | ROWS ColumnValues ColumnValues
  | ROWS_AND_HASH_NEXT ColumnValues ColumnValues ColumnValues hash
  | ROWS_AND_HASH_FAIL ColumnValues ColumnValues ColumnValues ColumnValues hash
  | OTHER nat

text \<open>A message on the input stream: a command and the row tuples that follow it.\<close>

type_synonym message = "command \<times> row list"

datatype verb = PROTOCOL | TARGET_BLOCK_SIZE | EXPORT_SNAPSHOT | IMPORT_SNAPSHOT | UNHOLD_SNAPSHOT
  | WITHOUT_SNAPSHOT | SCHEMA | OPEN string | QUIT

text \<open>
  The calls a worker makes on its collaborators (streams, database client, sync queue,
  sync algorithm, row applier). The worker's trace is the list of the calls that returned.
\<close>

datatype call =
    Send_command verb
  | Read_reply
  | Wait_at_barrier
  | Populate_database_schema
  | Start_write_transaction
  | Check_schema_match
  | Enqueue
  | Disable_referential_integrity
  | Enable_referential_integrity
  | Pop
  | Check_aborted
  | Read_command
  | Check_hash_and_choose_next_range ColumnValues ColumnValues "ColumnValues option" hash
  | Stream_from_input ColumnValues ColumnValues
  | Commit_transaction
  | Rollback_transaction
  | Close_output

type_synonym database = "string \<Rightarrow> row list"

record worker =
  client_database :: database
  uncommitted :: "database option"
  referential_integrity :: bool
  input :: "message list"
  trace :: "call list"

record options =
  leader :: bool
  workers :: nat
  snapshot :: bool
  partial :: bool
  rollback_after :: bool

text \<open>
  The environment of a run: which calls raise (decided by the call and by the number of
  calls made so far), and the tables the shared queue hands to this worker.
\<close>

record environment =
  faults :: "nat \<Rightarrow> call \<Rightarrow> error option"
  popped :: "Table list"

type_synonym step = "worker \<Rightarrow> error option \<times> worker"

definition perform :: "environment \<Rightarrow> call \<Rightarrow> (worker \<Rightarrow> worker) \<Rightarrow> step" where
  "perform env c effect w =
     (case faults env (length (trace w)) c of
        Some e \<Rightarrow> (Some e, w)
      | None \<Rightarrow> (None, (effect w)\<lparr>trace := trace w @ [c]\<rparr>))"

fun run_steps :: "step list \<Rightarrow> step" where
  "run_steps [] w = (None, w)"
| "run_steps (s # ss) w = (case s w of (Some e, w') \<Rightarrow> (Some e, w') | (None, w') \<Rightarrow> run_steps ss w')"

subsection \<open>Database client and row applier\<close>

text \<open>
  Modelled from the spec: the database client (the \<open>DatabaseClient\<close> template parameter) is
  not among the sources. A write transaction works on its own view of the database, which
  commit publishes and rollback discards; outside a transaction a write is published at once.
\<close>

definition start_write_transaction :: "worker \<Rightarrow> worker" where
  "start_write_transaction w = w\<lparr>uncommitted := Some (client_database w)\<rparr>"

definition commit_transaction :: "worker \<Rightarrow> worker" where
  "commit_transaction w =
     (case uncommitted w of Some d \<Rightarrow> w\<lparr>client_database := d, uncommitted := None\<rparr> | None \<Rightarrow> w)"

definition rollback_transaction :: "worker \<Rightarrow> worker" where
  "rollback_transaction w = w\<lparr>uncommitted := None\<rparr>"

definition write_database :: "(database \<Rightarrow> database) \<Rightarrow> worker \<Rightarrow> worker" where
  "write_database f w =
     (case uncommitted w of Some d \<Rightarrow> w\<lparr>uncommitted := Some (f d)\<rparr>
      | None \<Rightarrow> w\<lparr>client_database := f (client_database w)\<rparr>)"

text \<open>
  Modelled from the spec: the row applier (\<open>table_row_applier.h\<close>) is not among the sources.
  It replaces the destination's rows of the key range by the delivered rows, and a delivered
  row whose key falls outside the declared range is a protocol error.
\<close>

definition apply_rows :: "Table \<Rightarrow> ColumnValues \<Rightarrow> ColumnValues \<Rightarrow> row list \<Rightarrow> database \<Rightarrow> database" where
  "apply_rows t prev_key last_key delivered db =
     db(name t := filter (\<lambda>r. \<not> in_key_range prev_key last_key (key_of t r)) (db (name t)) @ delivered)"

definition stream_from_input :: "environment \<Rightarrow> Table \<Rightarrow> ColumnValues \<Rightarrow> ColumnValues \<Rightarrow> row list \<Rightarrow> step" where
  "stream_from_input env t prev_key last_key delivered w =
     (if list_all (\<lambda>r. in_key_range prev_key last_key (key_of t r)) delivered
      then perform env (Stream_from_input prev_key last_key) (write_database (apply_rows t prev_key last_key delivered)) w
      else (Some protocol_error, w))"

subsection \<open>The steps of \<open>SyncToWorker::operator()\<close>\<close>

definition negotiate_protocol :: "environment \<Rightarrow> step" where
  "negotiate_protocol env = run_steps [perform env (Send_command PROTOCOL) id, perform env Read_reply id]"

definition negotiate_target_block_size :: "environment \<Rightarrow> step" where
  "negotiate_target_block_size env =
     run_steps [perform env (Send_command TARGET_BLOCK_SIZE) id, perform env Read_reply id]"

definition share_snapshot :: "options \<Rightarrow> environment \<Rightarrow> step" where
  "share_snapshot opts env =
     (if 1 < workers opts \<and> snapshot opts then
        run_steps (
          [perform env Wait_at_barrier id] @
          (if leader opts then [perform env (Send_command EXPORT_SNAPSHOT) id, perform env Read_reply id] else []) @
          [perform env Wait_at_barrier id] @
          (if \<not> leader opts then [perform env (Send_command IMPORT_SNAPSHOT) id, perform env Read_reply id] else []) @
          [perform env Wait_at_barrier id] @
          (if leader opts then [perform env (Send_command UNHOLD_SNAPSHOT) id, perform env Read_reply id] else []))
      else run_steps [perform env (Send_command WITHOUT_SNAPSHOT) id, perform env Read_reply id])"

definition populate_database_schema :: "options \<Rightarrow> environment \<Rightarrow> step" where
  "populate_database_schema opts env =
     (if leader opts then perform env Populate_database_schema id else run_steps [])"

definition compare_schema :: "options \<Rightarrow> environment \<Rightarrow> step" where
  "compare_schema opts env =
     (if leader opts
      then run_steps [perform env (Send_command SCHEMA) id, perform env Read_reply id, perform env Check_schema_match id]
      else run_steps [])"

definition enqueue_tables :: "options \<Rightarrow> environment \<Rightarrow> step" where
  "enqueue_tables opts env =
     run_steps ((if leader opts then [perform env Enqueue id] else []) @ [perform env Wait_at_barrier id])"

subsection \<open>The per-table loop of \<open>sync_table\<close>\<close>

datatype loop_control = Continue | Break

text \<open>
  One turn of the loop after the command has been read. Verbose logging and its counters are
  left out. \<open>check_hash_and_choose_next_range\<close> (of \<open>sync_algorithm.h\<close>, not among the
  sources) checks the hash against the destination's rows and sends the next command.
\<close>

fun handle_command :: "environment \<Rightarrow> Table \<Rightarrow> message \<Rightarrow> worker \<Rightarrow> error option \<times> loop_control \<times> worker" where
  "handle_command env t (HASH_NEXT prev_key last_key h, delivered) w =
     (case perform env (Check_hash_and_choose_next_range prev_key last_key None h) id w of
        (r, w') \<Rightarrow> (r, Continue, w'))"
| "handle_command env t (HASH_FAIL prev_key last_key failed_last_key h, delivered) w =
     (case perform env (Check_hash_and_choose_next_range prev_key last_key (Some failed_last_key) h) id w of
        (r, w') \<Rightarrow> (r, Continue, w'))"
| "handle_command env t (ROWS prev_key last_key, delivered) w =
     (case stream_from_input env t prev_key last_key delivered w of
        (Some e, w') \<Rightarrow> (Some e, Continue, w')
      | (None, w') \<Rightarrow> (None, if last_key = [] then Break else Continue, w'))"
| "handle_command env t (ROWS_AND_HASH_NEXT prev_key last_key next_key h, delivered) w =
     (case run_steps [perform env (Check_hash_and_choose_next_range last_key next_key None h) id,
                      stream_from_input env t prev_key last_key delivered] w of
        (r, w') \<Rightarrow> (r, Continue, w'))"
| "handle_command env t (ROWS_AND_HASH_FAIL prev_key last_key next_key failed_last_key h, delivered) w =
     (case run_steps [perform env (Check_hash_and_choose_next_range last_key next_key (Some failed_last_key) h) id,
                      stream_from_input env t prev_key last_key delivered] w of
        (r, w') \<Rightarrow> (r, Continue, w'))"
| "handle_command env t (OTHER v, delivered) w = (Some (command_error v), Continue, w)"

text \<open>
  The loop: check the abort flag, read a command, handle it; it returns the unread input.
  Reading from an input stream that has ended raises.
\<close>

fun sync_table_loop :: "environment \<Rightarrow> Table \<Rightarrow> message list \<Rightarrow> worker \<Rightarrow> error option \<times> worker \<times> message list" where
  "sync_table_loop env t ms w =
     (case perform env Check_aborted id w of
        (Some e, w1) \<Rightarrow> (Some e, w1, ms)
      | (None, w1) \<Rightarrow>
          (case ms of
             [] \<Rightarrow> (Some input_closed, w1, [])
           | m # rest \<Rightarrow>
               (case perform env Read_command id w1 of
                  (Some e, w2) \<Rightarrow> (Some e, w2, ms)
                | (None, w2) \<Rightarrow>
                    (case handle_command env t m w2 of
                       (Some e, c, w3) \<Rightarrow> (Some e, w3, rest)
                     | (None, Break, w3) \<Rightarrow> (None, w3, rest)
                     | (None, Continue, w3) \<Rightarrow> sync_table_loop env t rest w3))))"

definition sync_table :: "environment \<Rightarrow> Table \<Rightarrow> step" where
  "sync_table env t w =
     (case perform env (Send_command (OPEN (name t))) id w of
        (Some e, w1) \<Rightarrow> (Some e, w1)
      | (None, w1) \<Rightarrow>
          (case sync_table_loop env t (input w1) w1 of
             (r, w2, rest) \<Rightarrow> (r, w2\<lparr>input := rest\<rparr>)))"

text \<open>The loop of \<open>sync_tables\<close> over the tables that \<open>pop\<close> hands out, until it returns none.\<close>

fun sync_popped :: "environment \<Rightarrow> Table list \<Rightarrow> step" where
  "sync_popped env [] w = perform env Pop id w"
| "sync_popped env (t # ts) w =
     (case perform env Pop id w of
        (Some e, w1) \<Rightarrow> (Some e, w1)
      | (None, w1) \<Rightarrow>
          (case sync_table env t w1 of
             (Some e, w2) \<Rightarrow> (Some e, w2)
           | (None, w2) \<Rightarrow> sync_popped env ts w2))"

definition sync_tables :: "environment \<Rightarrow> step" where
  "sync_tables env =
     run_steps [perform env Disable_referential_integrity (\<lambda>w. w\<lparr>referential_integrity := False\<rparr>),
                sync_popped env (popped env),
                perform env Wait_at_barrier id,
                perform env Enable_referential_integrity (\<lambda>w. w\<lparr>referential_integrity := True\<rparr>)]"

definition commit :: "environment \<Rightarrow> step" where
  "commit env = perform env Commit_transaction commit_transaction"

definition rollback :: "environment \<Rightarrow> step" where
  "rollback env = perform env Rollback_transaction rollback_transaction"

text \<open>A failure to send QUIT is swallowed.\<close>

definition send_quit_command :: "environment \<Rightarrow> step" where
  "send_quit_command env w = (None, snd (perform env (Send_command QUIT) id w))"

definition operator_body :: "options \<Rightarrow> environment \<Rightarrow> step" where
  "operator_body opts env =
     run_steps [negotiate_protocol env,
                negotiate_target_block_size env,
                share_snapshot opts env,
                populate_database_schema opts env,
                perform env Start_write_transaction start_write_transaction,
                compare_schema opts env,
                enqueue_tables opts env,
                sync_tables env,
                if rollback_after opts then rollback env else commit env,
                send_quit_command env]"

subsection \<open>The shared sync queue and the exception handler\<close>

text \<open>
  The state all workers of one side share: the abort flag of the sync queue, and the
  process's standard error.
\<close>

record shared =
  aborted :: bool
  stderr :: "error list"

text \<open>
  Modelled from the spec: \<open>SyncQueue::abort\<close> (\<open>sync_queue.h\<close>) is not among the sources.
  It sets the abort flag and returns true iff this call was the first to set it.
\<close>

definition abort :: "shared \<Rightarrow> bool \<times> shared" where
  "abort q = (\<not> aborted q, q\<lparr>aborted := True\<rparr>)"

definition handle_exception :: "options \<Rightarrow> environment \<Rightarrow> error \<Rightarrow> shared \<times> worker \<Rightarrow> shared \<times> worker" where
  "handle_exception opts env e qw =
     (case qw of (q, w) \<Rightarrow>
        (case abort q of (first, q1) \<Rightarrow>
           (let q2 = (if first then q1\<lparr>stderr := stderr q1 @ [e]\<rparr> else q1);
                w1 = (if partial opts then snd (perform env Commit_transaction commit_transaction w) else w)
            in (q2, w1))))"

definition close_output :: "worker \<Rightarrow> worker" where
  "close_output w = w\<lparr>trace := trace w @ [Close_output]\<rparr>"

definition operator_call :: "options \<Rightarrow> environment \<Rightarrow> shared \<times> worker \<Rightarrow> shared \<times> worker" where
  "operator_call opts env qw =
     (case qw of (q, w) \<Rightarrow>
        (case operator_body opts env w of
           (None, w1) \<Rightarrow> (q, close_output w1)
         | (Some e, w1) \<Rightarrow> (case handle_exception opts env e (q, w1) of (q1, w2) \<Rightarrow> (q1, close_output w2))))"

text \<open>
  The workers of one side, in the order in which they leave their \<open>try\<close> block: each runs on
  its own connection and streams and they meet only in the shared state.
\<close>

fun run_workers :: "(options \<times> environment \<times> worker) list \<Rightarrow> shared \<Rightarrow> shared" where
  "run_workers [] q = q"
| "run_workers ((opts, env, w) # rest) q = run_workers rest (fst (operator_call opts env (q, w)))"

section \<open>The top-level \<open>ks\<close> process (\<open>main\<close>)\<close>

text \<open>
  What a run of \<open>main\<close> meets: how parsing the command line ends, whether the help option was
  counted, whether spawning the children (or waiting for them) raises, and what
  \<open>Process::wait_for_and_check\<close> returns for each child, the source-side workers first and
  the destination process last.
\<close>

datatype parse_result = Parsed | Required_option | Validation_error | Other_exception

record invocation =
  parsing :: parse_result
  help_count :: nat
  spawning_raises :: bool
  children :: "bool list"

datatype printed = Stdout string | Stderr string

text \<open>The function \<open>help\<close> of the source prints the options and returns 1.\<close>

definition show_help :: "printed list \<times> int" where
  "show_help = ([Stdout ''Allowed options''], 1)"

text \<open>
  The \<open>try\<close> block of \<open>main\<close>: what it has printed, and the exception that leaves it
  (\<open>Inl\<close>) or the value it returns.
\<close>

definition main_try :: "invocation \<Rightarrow> printed list \<times> (string + int)" where
  "main_try args =
     (case parsing args of
        Required_option \<Rightarrow> (fst show_help, Inr (snd show_help))
      | Validation_error \<Rightarrow> (Stderr ''validation error'' # fst show_help, Inr (snd show_help))
      | Other_exception \<Rightarrow> ([], Inl ''exception'')
      | Parsed \<Rightarrow>
          if 0 < help_count args then (fst show_help, Inr (snd show_help))
          else if spawning_raises args then ([Stdout ''Kitchen Sync''], Inl ''exception'')
          else
            (let success = foldl (\<lambda>success waited. success \<and> waited) True (children args)
             in if success
                then ([Stdout ''Kitchen Sync'', Stdout ''Finished Kitchen Syncing.''], Inr 0)
                else ([Stdout ''Kitchen Sync'', Stdout ''Kitchen Syncing failed.''], Inr 1)))"

text \<open>
  The handler of \<open>main\<close> prints the exception and returns nothing: control reaches the end
  of \<open>main\<close>, whose exit status is then 0.
\<close>

definition main :: "invocation \<Rightarrow> printed list \<times> int" where
  "main args =
     (case main_try args of
        (printed, Inr code) \<Rightarrow> (printed, code)
      | (printed, Inl e) \<Rightarrow> (printed @ [Stderr e], 0))"

definition exit_code :: "invocation \<Rightarrow> int" where
  "exit_code args = snd (main args)"

declare sync_table_loop.simps [simp del]

fun handled :: "Table \<Rightarrow> message \<Rightarrow> bool" where
  "handled t (HASH_NEXT prev_key last_key h, delivered) = True"
| "handled t (HASH_FAIL prev_key last_key failed_last_key h, delivered) = True"
| "handled t (ROWS prev_key last_key, delivered) = list_all (\<lambda>r. in_key_range prev_key last_key (key_of t r)) delivered"
| "handled t (ROWS_AND_HASH_NEXT prev_key last_key next_key h, delivered) = list_all (\<lambda>r. in_key_range prev_key last_key (key_of t r)) delivered"
| "handled t (ROWS_AND_HASH_FAIL prev_key last_key next_key failed_last_key h, delivered) = list_all (\<lambda>r. in_key_range prev_key last_key (key_of t r)) delivered"
| "handled t (OTHER v, delivered) = False"

definition no_faults :: "Table list \<Rightarrow> environment" where
  "no_faults ts = \<lparr> faults = (\<lambda>n c. None), popped = ts \<rparr>"

definition fresh_worker :: "message list \<Rightarrow> worker" where
  "fresh_worker ms = \<lparr> client_database = (\<lambda>table_name. []), uncommitted = None,
                       referential_integrity = True, input = ms, trace = [] \<rparr>"

text \<open>The calls of the table dialogue, and the other calls that leave the database alone.\<close>

fun is_table_call :: "call \<Rightarrow> bool" where
  "is_table_call (Send_command (OPEN table_name)) = True"
| "is_table_call Pop = True"
| "is_table_call Check_aborted = True"
| "is_table_call Read_command = True"
| "is_table_call (Check_hash_and_choose_next_range prev_key last_key failed_last_key h) = True"
| "is_table_call (Stream_from_input prev_key last_key) = True"
| "is_table_call c = False"

fun is_handshake_call :: "call \<Rightarrow> bool" where
  "is_handshake_call (Send_command (OPEN table_name)) = False"
| "is_handshake_call (Send_command v) = True"
| "is_handshake_call Read_reply = True"
| "is_handshake_call Wait_at_barrier = True"
| "is_handshake_call Populate_database_schema = True"
| "is_handshake_call Check_schema_match = True"
| "is_handshake_call Enqueue = True"
| "is_handshake_call c = False"

definition handshake_step :: "step \<Rightarrow> bool" where
  "handshake_step s =
     (\<forall>w r w'. s w = (r, w') \<longrightarrow> (\<exists>evs. w' = w\<lparr>trace := trace w @ evs\<rparr> \<and> list_all is_handshake_call evs))"

definition table_effect :: "worker \<Rightarrow> worker \<Rightarrow> bool" where
  "table_effect w w' =
     ((\<exists>evs. trace w' = trace w @ evs \<and> list_all is_table_call evs) \<and>
      (uncommitted w \<noteq> None \<longrightarrow> uncommitted w' \<noteq> None \<and> client_database w' = client_database w))"

definition table_step :: "step \<Rightarrow> bool" where
  "table_step s = (\<forall>w r w'. s w = (r, w') \<longrightarrow> table_effect w w')"

datatype integrity = Checks_on | Checks_off | Past_barrier | Checks_restored

fun window_step :: "integrity \<Rightarrow> call \<Rightarrow> integrity option" where
  "window_step p Disable_referential_integrity = (if p = Checks_on then Some Checks_off else None)"
| "window_step p Wait_at_barrier = Some (if p = Checks_off then Past_barrier else p)"
| "window_step p Enable_referential_integrity = (if p = Past_barrier then Some Checks_restored else None)"
| "window_step p c = (if is_table_call c then (if p = Checks_off then Some p else None) else Some p)"

fun window_phase :: "integrity \<Rightarrow> call list \<Rightarrow> integrity option" where
  "window_phase p [] = Some p"
| "window_phase p (c # cs) = (case window_step p c of None \<Rightarrow> None | Some q \<Rightarrow> window_phase q cs)"

definition keeps_window :: "integrity \<Rightarrow> integrity \<Rightarrow> step \<Rightarrow> bool" where
  "keeps_window p q s =
     (\<forall>w r w'. s w = (r, w') \<longrightarrow>
        (\<exists>evs. trace w' = trace w @ evs \<and> window_phase p evs \<noteq> None \<and>
               (r = None \<longrightarrow> window_phase p evs = Some q)))"

definition test_options :: options where
  "test_options = \<lparr> leader = True, workers = 1, snapshot = True, partial = False, rollback_after = True \<rparr>"

definition test_input :: "message list" where
  "test_input = [(ROWS_AND_HASH_NEXT [] [VInt 2] [VInt 5] ''h'', [[VInt 2, VInt 10, VStr ''test'']]),
                 (ROWS [VInt 2] [], [])]"

definition failing_environment :: "string \<Rightarrow> environment" where
  "failing_environment what = \<lparr> faults = (\<lambda>n c. if c = Read_reply then Some (failure what) else None), popped = [] \<rparr>"

section \<open>Properties of the source responder\<close>

lemma key_of_append:
  assumes "list_all (\<lambda>i. i < length r) (primary_key_columns t)"
  shows "key_of t (r @ extra) = key_of t r"
  using assms by (auto simp add: key_of_def column_value_def list_all_iff nth_append)

lemma sorted_map_remdups:
  "sorted (map f xs) \<Longrightarrow> sorted (map f (remdups xs))"
  by (induction xs) auto

lemma well_formed_row:
  "well_formed t stored \<Longrightarrow> r \<in> set stored \<Longrightarrow> list_all (\<lambda>i. i < length r) (primary_key_columns t)"
  by (simp add: well_formed_def list_all_iff)

lemma key_of_group_rows:
  assumes "well_formed t stored" "set rs \<subseteq> set stored"
  shows "map (\<lambda>r. key_rank (key_of t r)) (group_rows rs) = map (\<lambda>r. key_rank (key_of t r)) (remdups rs)"
  using assms well_formed_row[of t stored]
  by (auto simp add: group_rows_def key_of_append)

lemma sorted_rows_in_key_order:
  assumes "well_formed t stored"
  shows "sorted (map (\<lambda>r. key_rank (key_of t r)) (rows_in_key_order t stored))"
proof (cases "unique_key t")
  case True
  then show ?thesis by (simp add: rows_in_key_order_def)
next
  case False
  have "set (sort_key (\<lambda>r. key_rank (key_of t r)) stored) \<subseteq> set stored" by simp
  from key_of_group_rows[OF assms this] False show ?thesis
    by (simp add: rows_in_key_order_def sorted_map_remdups)
qed

lemma sorted_scan_range:
  assumes "well_formed t stored"
  shows "sorted (map (\<lambda>r. key_rank (key_of t r)) (scan_range t stored prev_key last_key limit))"
proof -
  let ?f = "\<lambda>r. key_rank (key_of t r)"
  let ?in = "filter (\<lambda>r. in_key_range prev_key last_key (key_of t r)) (rows_in_key_order t stored)"
  have s: "sorted (map ?f ?in)"
    using sorted_rows_in_key_order[OF assms] by (rule sorted_filter)
  show ?thesis
  proof (cases limit)
    case None
    with s show ?thesis by (simp add: scan_range_def)
  next
    case (Some n)
    have "sorted (take n (map ?f ?in))" using s by (rule sorted_wrt_take)
    with Some show ?thesis by (simp add: scan_range_def take_map)
  qed
qed

lemma scan_range_limit:
  "scan_range t stored prev_key last_key (Some n) = take n (scan_range t stored prev_key last_key None)"
  by (simp add: scan_range_def)

lemma scan_range_all_unique:
  assumes "unique_key t"
  shows "scan_range t stored prev_key last_key None =
         sort_key (\<lambda>r. key_rank (key_of t r)) (filter (\<lambda>r. in_key_range prev_key last_key (key_of t r)) stored)"
  using assms by (simp add: scan_range_def rows_in_key_order_def filter_sort)

lemma length_scan_unique:
  assumes "unique_key t"
  shows "length (scan_range t stored prev_key last_key (Some n)) =
         min n (length (filter (\<lambda>r. in_key_range prev_key last_key (key_of t r)) stored))"
  by (simp add: scan_range_limit scan_range_all_unique[OF assms] min.commute)

lemma filter_group_rows:
  assumes "well_formed t stored" "set rs \<subseteq> set stored"
  shows "filter (\<lambda>r. P (key_of t r)) (group_rows rs) =
         map (\<lambda>r. r @ [VInt (int (count_list rs r))]) (filter (\<lambda>r. P (key_of t r)) (remdups rs))"
proof -
  have "\<And>r e. r \<in> set (remdups rs) \<Longrightarrow> key_of t (r @ e) = key_of t r"
    using assms well_formed_row[of t stored] by (auto simp add: key_of_append)
  then have "filter (\<lambda>x. P (key_of t (x @ [VInt (int (count_list rs x))]))) (remdups rs) =
             filter (\<lambda>r. P (key_of t r)) (remdups rs)"
    by (intro filter_cong) auto
  then show ?thesis
    by (simp add: group_rows_def filter_map comp_def)
qed

lemma length_scan_grouped:
  assumes "well_formed t stored" "\<not> unique_key t"
  shows "length (scan_range t stored prev_key last_key (Some n)) =
         min n (card {r \<in> set stored. in_key_range prev_key last_key (key_of t r)})"
proof -
  let ?f = "\<lambda>r. key_rank (key_of t r)"
  let ?P = "\<lambda>r. in_key_range prev_key last_key (key_of t r)"
  let ?ordered = "sort_key ?f stored"
  have sub: "set ?ordered \<subseteq> set stored" by simp
  have "length (filter ?P (group_rows ?ordered)) = length (filter ?P (remdups ?ordered))"
    using filter_group_rows[OF assms(1) sub, where P = "in_key_range prev_key last_key"] by simp
  also have "\<dots> = card (set (filter ?P (remdups ?ordered)))"
    by (rule distinct_card[symmetric]) simp
  also have "\<dots> = card {r \<in> set stored. ?P r}"
    by (rule arg_cong[where f = card]) auto
  finally show ?thesis using assms(2)
    by (simp add: scan_range_def rows_in_key_order_def min.commute)
qed


lemma set_scan_range_all:
  "set (scan_range t stored prev_key last_key None) =
   {r \<in> set (rows_in_key_order t stored). in_key_range prev_key last_key (key_of t r)}"
  by (simp add: scan_range_def)

lemma set_rows_in_key_order_unique:
  "unique_key t \<Longrightarrow> set (rows_in_key_order t stored) = set stored"
  by (simp add: rows_in_key_order_def)

lemma set_scan_range_unique:
  assumes "unique_key t"
  shows "set (scan_range t stored prev_key last_key limit) \<subseteq> set stored"
proof (cases limit)
  case None
  then show ?thesis using assms by (auto simp add: scan_range_def rows_in_key_order_def)
next
  case (Some n)
  have "set (take n (scan_range t stored prev_key last_key None)) \<subseteq> set (scan_range t stored prev_key last_key None)"
    by (rule set_take_subset)
  then show ?thesis using assms Some
    by (auto simp add: scan_range_limit set_scan_range_all set_rows_in_key_order_unique)
qed

lemma key_rank_two_columns:
  assumes "primary_key_columns t = [a, b]"
  shows "key_rank (key_of t r) \<le> key_rank (key_of t r') \<longleftrightarrow>
         value_rank (column_value r a) < value_rank (column_value r' a) \<or>
         value_rank (column_value r a) = value_rank (column_value r' a) \<and>
         value_rank (column_value r b) \<le> value_rank (column_value r' b)"
  using assms by (auto simp add: key_rank_def key_of_def)

lemma secondtbl_scan:
  "scan_range secondtbl secondtbl_rows [] [VStr ''aa'', VInt 101] None = [[VInt 100, VInt 100, VStr ''aa'', VInt 100]]"
  by code_simp


lemma secondtbl_well_formed: "well_formed secondtbl secondtbl_rows"
  by code_simp

lemma noprimaryjointbl_well_formed: "well_formed noprimaryjointbl noprimaryjointbl_rows"
  by code_simp

text \<open>The expectations of \<open>HashFromTest\<close> on \<open>footbl\<close> with a row limit.\<close>

lemma footbl_scan_limit_3:
  "scan_range footbl footbl_rows [VInt 4] [VInt 100] (Some 3) =
     [[VInt 5, VNil, VNil], [VInt 8, VInt (- 1), VStr ''longer str''], [VInt 100, VInt 0, VStr ''last'']]"
  by code_simp

lemma footbl_scan_limit_2:
  "scan_range footbl footbl_rows [VInt 4] [VInt 100] (Some 2) =
     [[VInt 5, VNil, VNil], [VInt 8, VInt (- 1), VStr ''longer str'']]"
  by code_simp

lemma footbl_scan_all:
  "scan_range footbl footbl_rows [VInt 4] [VInt 100] None =
     [[VInt 5, VNil, VNil], [VInt 8, VInt (- 1), VStr ''longer str''], [VInt 100, VInt 0, VStr ''last'']]"
  by code_simp

lemma footbl_hash_limit_2:
  "handle_hash_command hash_of footbl footbl_rows [VInt 4] [VInt 100] 2 =
     \<lparr> reply_table = ''footbl'', reply_prev_key = [VInt 4], reply_last_key = [VInt 100],
       reply_rows_to_hash = 2, reply_row_count = 2,
       reply_hash = hash_of [[VInt 5, VNil, VNil], [VInt 8, VInt (- 1), VStr ''longer str'']] \<rparr>"
  by (simp add: handle_hash_command_def footbl_scan_limit_2) (simp add: footbl_def)

text \<open>The expectations of the tests on \<open>noprimaryjointbl\<close>, whose key is not unique.\<close>

lemma noprimaryjointbl_scan_all:
  "scan_range noprimaryjointbl noprimaryjointbl_rows [] [] None =
     [[VInt 3, VInt 9, VInt 1], [VInt 3, VInt 10, VInt 2], [VInt 3, VInt 11, VInt 1],
      [VInt 1, VInt 100, VInt 1], [VInt 1, VInt 101, VInt 1], [VInt 2, VInt 101, VInt 1]]"
  by code_simp

lemma noprimaryjointbl_scan_to_second_key:
  "scan_range noprimaryjointbl noprimaryjointbl_rows [] [VInt 10, VInt 3] (Some 1000) =
     [[VInt 3, VInt 9, VInt 1], [VInt 3, VInt 10, VInt 2]]"
  by code_simp

lemma noprimaryjointbl_scan_limit_2:
  "scan_range noprimaryjointbl noprimaryjointbl_rows [] [VInt 101, VInt 2] (Some 2) =
     [[VInt 3, VInt 9, VInt 1], [VInt 3, VInt 10, VInt 2]]"
  by code_simp





text \<open>
  C3: whether or not the ordering key is unique, the row count of the HASH reply is the
  number of rows the scan read in the requested range: for a unique key the stored rows of
  the range, for a key that is not unique the distinct stored rows of the range (copies are
  read as one row carrying their number), in both cases up to the row limit.
\<close>

theorem hash_reply_row_count:
  "reply_row_count (handle_hash_command hash_of t stored prev_key last_key row_limit)
     = length (scan_range t stored prev_key last_key (Some row_limit))
   \<and> (unique_key t \<longrightarrow>
        reply_row_count (handle_hash_command hash_of t stored prev_key last_key row_limit)
          = min row_limit (length (filter (\<lambda>r. in_key_range prev_key last_key (key_of t r)) stored)))
   \<and> (\<not> unique_key t \<and> well_formed t stored \<longrightarrow>
        reply_row_count (handle_hash_command hash_of t stored prev_key last_key row_limit)
          = min row_limit (card {r \<in> set stored. in_key_range prev_key last_key (key_of t r)}))"
  using length_scan_unique[of t stored prev_key last_key row_limit]
        length_scan_grouped[of t stored prev_key last_key row_limit]
  by (simp add: handle_hash_command_def Let_def)

theorem hash_reply_row_count_witness:
  "\<not> unique_key noprimaryjointbl \<and> well_formed noprimaryjointbl noprimaryjointbl_rows
   \<and> reply_row_count (handle_hash_command length noprimaryjointbl noprimaryjointbl_rows [] [VInt 10, VInt 3] 1000) = 2
   \<and> min 1000 (card {r \<in> set noprimaryjointbl_rows. in_key_range [] [VInt 10, VInt 3] (key_of noprimaryjointbl r)}) = 2"
proof -
  have u: "\<not> unique_key noprimaryjointbl" by (simp add: noprimaryjointbl_def)
  have c: "reply_row_count (handle_hash_command length noprimaryjointbl noprimaryjointbl_rows [] [VInt 10, VInt 3] 1000) = 2"
    by (simp add: handle_hash_command_def noprimaryjointbl_scan_to_second_key)
  show ?thesis
    using hash_reply_row_count [of length noprimaryjointbl noprimaryjointbl_rows "[]" "[VInt 10, VInt 3]" 1000]
          u c noprimaryjointbl_well_formed
    by simp
qed

text \<open>
  C4: rows are ordered lexicographically by the key columns in key-column order, and each
  row of a reply lists its values in declared column order, as stored; for \<open>secondtbl\<close>,
  whose key is (pri2, pri1), a HASH over the range from the empty tuple to ["aa", 101]
  gives row count 1 and the hash of the row (100, 100, "aa", 100) only.
\<close>

theorem composite_key_order:
  assumes "well_formed t stored"
  shows "sorted (map (\<lambda>r. key_rank (key_of t r)) (scan_range t stored prev_key last_key limit))
       \<and> (\<forall>a b. primary_key_columns t = [a, b] \<longrightarrow>
            sorted_wrt (\<lambda>r r'. value_rank (column_value r a) < value_rank (column_value r' a) \<or>
                               value_rank (column_value r a) = value_rank (column_value r' a) \<and>
                               value_rank (column_value r b) \<le> value_rank (column_value r' b))
              (scan_range t stored prev_key last_key limit))
       \<and> (unique_key t \<longrightarrow> set (scan_range t stored prev_key last_key limit) \<subseteq> set stored)
       \<and> reply_row_count (handle_hash_command hash_of secondtbl secondtbl_rows [] [VStr ''aa'', VInt 101] (Suc n)) = 1
       \<and> reply_hash (handle_hash_command hash_of secondtbl secondtbl_rows [] [VStr ''aa'', VInt 101] (Suc n))
           = hash_of [[VInt 100, VInt 100, VStr ''aa'', VInt 100]]"
proof -
  have s: "sorted (map (\<lambda>r. key_rank (key_of t r)) (scan_range t stored prev_key last_key limit))"
    using assms by (rule sorted_scan_range)
  then have w: "sorted_wrt (\<lambda>r r'. key_rank (key_of t r) \<le> key_rank (key_of t r')) (scan_range t stored prev_key last_key limit)"
    by (simp add: sorted_map)
  have two: "\<forall>a b. primary_key_columns t = [a, b] \<longrightarrow>
            sorted_wrt (\<lambda>r r'. value_rank (column_value r a) < value_rank (column_value r' a) \<or>
                               value_rank (column_value r a) = value_rank (column_value r' a) \<and>
                               value_rank (column_value r b) \<le> value_rank (column_value r' b))
              (scan_range t stored prev_key last_key limit)"
  proof (intro allI impI)
    fix a b assume k: "primary_key_columns t = [a, b]"
    show "sorted_wrt (\<lambda>r r'. value_rank (column_value r a) < value_rank (column_value r' a) \<or>
                               value_rank (column_value r a) = value_rank (column_value r' a) \<and>
                               value_rank (column_value r b) \<le> value_rank (column_value r' b))
              (scan_range t stored prev_key last_key limit)"
      using w by (simp add: key_rank_two_columns[OF k])
  qed
  have u: "unique_key t \<longrightarrow> set (scan_range t stored prev_key last_key limit) \<subseteq> set stored"
    using set_scan_range_unique by blast
  have e: "scan_range secondtbl secondtbl_rows [] [VStr ''aa'', VInt 101] (Some (Suc n)) = [[VInt 100, VInt 100, VStr ''aa'', VInt 100]]"
    by (simp add: scan_range_limit secondtbl_scan)
  show ?thesis using s two u
    by (simp add: handle_hash_command_def e)
qed

theorem composite_key_order_witness:
  "well_formed secondtbl secondtbl_rows
   \<and> primary_key_columns secondtbl = [2, 1]
   \<and> scan_range secondtbl secondtbl_rows [] [] None =
       [[VInt 100, VInt 100, VStr ''aa'', VInt 100], [VInt 9, VInt 968116383, VStr ''aa'', VInt 9],
        [VInt 340, VInt 363401169, VStr ''ab'', VInt 20], [VInt 2, VInt 2349174, VStr ''xy'', VInt 1]]
   \<and> sorted (map (\<lambda>r. key_rank (key_of secondtbl r)) (scan_range secondtbl secondtbl_rows [] [] None))
   \<and> sorted_wrt (\<lambda>r r'. value_rank (column_value r 2) < value_rank (column_value r' 2) \<or>
                               value_rank (column_value r 2) = value_rank (column_value r' 2) \<and>
                               value_rank (column_value r 1) \<le> value_rank (column_value r' 1))
              (scan_range secondtbl secondtbl_rows [] [] None)"
proof -
  have k: "primary_key_columns secondtbl = [2, 1]" by (simp add: secondtbl_def)
  have v: "scan_range secondtbl secondtbl_rows [] [] None =
       [[VInt 100, VInt 100, VStr ''aa'', VInt 100], [VInt 9, VInt 968116383, VStr ''aa'', VInt 9],
        [VInt 340, VInt 363401169, VStr ''ab'', VInt 20], [VInt 2, VInt 2349174, VStr ''xy'', VInt 1]]"
    by code_simp
  from composite_key_order [OF secondtbl_well_formed, of "[]" "[]" None length 0]
  have "sorted (map (\<lambda>r. key_rank (key_of secondtbl r)) (scan_range secondtbl secondtbl_rows [] [] None))"
    and "sorted_wrt (\<lambda>r r'. value_rank (column_value r 2) < value_rank (column_value r' 2) \<or>
                               value_rank (column_value r 2) = value_rank (column_value r' 2) \<and>
                               value_rank (column_value r 1) \<le> value_rank (column_value r' 1))
              (scan_range secondtbl secondtbl_rows [] [] None)"
    using k by blast+
  then show ?thesis using k v secondtbl_well_formed by blast
qed

section \<open>Properties of the destination worker\<close>

lemma perform_cases:
  "perform env c effect w = (r, w') \<Longrightarrow>
     (r = None \<and> faults env (length (trace w)) c = None \<and> w' = (effect w)\<lparr>trace := trace w @ [c]\<rparr>) \<or>
     (r \<noteq> None \<and> faults env (length (trace w)) c = r \<and> w' = w)"
  by (auto simp add: perform_def split: option.splits)

lemma stream_from_input_cases:
  "stream_from_input env t prev_key last_key delivered w = (r, w') \<Longrightarrow>
     (r = None \<and> w' = (write_database (apply_rows t prev_key last_key delivered) w)\<lparr>trace := trace w @ [Stream_from_input prev_key last_key]\<rparr>) \<or>
     (r \<noteq> None \<and> w' = w)"
  by (auto simp add: stream_from_input_def dest!: perform_cases split: if_splits)

lemma trace_write_database [simp]: "trace (write_database f w) = trace w"
  by (simp add: write_database_def split: option.splits)

lemma handle_command_control:
  assumes "handle_command env t m w = (None, c, w')"
  shows "c = Break \<longleftrightarrow> (\<exists>prev_key. fst m = ROWS prev_key [])"
proof (cases m)
  case (Pair cmd delivered)
  then show ?thesis using assms
    by (cases cmd) (auto split: prod.splits option.splits if_splits)
qed

lemma handle_command_other:
  "handle_command env t (OTHER v, delivered) w = (r, c, w') \<Longrightarrow> r = Some (command_error v)"
  by simp

text \<open>Messages that the loop handles without an exception when no call raises.\<close>

lemma sync_table_loop_returns:
  assumes "sync_table_loop env t ms w = (None, w', rest)"
  shows "\<exists>pre prev_key delivered. ms = pre @ (ROWS prev_key [], delivered) # rest \<and>
           (\<forall>m \<in> set pre. \<forall>p. fst m \<noteq> ROWS p [])"
  using assms
proof (induction ms arbitrary: w)
  case Nil
  then show ?case
    by (simp add: sync_table_loop.simps[of env t "[]"] split: prod.splits option.splits)
next
  case (Cons m ms)
  from Cons.prems obtain w2 c w3 where
    h: "handle_command env t m w2 = (None, c, w3)"
    and k: "(c = Break \<and> rest = ms) \<or> (c = Continue \<and> sync_table_loop env t ms w3 = (None, w', rest))"
    by (auto simp add: sync_table_loop.simps[of env t "m # ms"] split: prod.splits option.splits loop_control.splits)
  from k show ?case
  proof
    assume "c = Break \<and> rest = ms"
    with handle_command_control[OF h] obtain p where "fst m = ROWS p []" and "rest = ms" by auto
    then have "m # ms = [] @ (ROWS p [], snd m) # rest" by (cases m) simp
    then show ?thesis by fastforce
  next
    assume a: "c = Continue \<and> sync_table_loop env t ms w3 = (None, w', rest)"
    with Cons.IH obtain pre p d where
      "ms = pre @ (ROWS p [], d) # rest" "\<forall>m \<in> set pre. \<forall>p. fst m \<noteq> ROWS p []" by blast
    moreover from a handle_command_control[OF h] have "\<forall>p. fst m \<noteq> ROWS p []" by auto
    ultimately have "m # ms = (m # pre) @ (ROWS p [], d) # rest \<and> (\<forall>x \<in> set (m # pre). \<forall>p. fst x \<noteq> ROWS p [])"
      by simp
    then show ?thesis by blast
  qed
qed

lemma perform_no_faults:
  "\<forall>n c. faults env n c = None \<Longrightarrow> perform env c effect w = (None, (effect w)\<lparr>trace := trace w @ [c]\<rparr>)"
  by (simp add: perform_def)

lemma handle_command_no_faults:
  assumes "\<forall>n c. faults env n c = None" "handled t m"
  shows "\<exists>c w'. handle_command env t m w = (None, c, w')"
proof (cases m)
  case (Pair cmd delivered)
  then show ?thesis using assms
    by (cases cmd) (simp_all add: perform_no_faults stream_from_input_def)
qed

lemma sync_table_loop_reaches_final_rows:
  assumes "\<forall>n c. faults env n c = None" "list_all (handled t) pre"
    "\<forall>m \<in> set pre. \<forall>p. fst m \<noteq> ROWS p []" "handled t (ROWS prev_key [], delivered)"
  shows "\<exists>w'. sync_table_loop env t (pre @ (ROWS prev_key [], delivered) # rest) w = (None, w', rest)"
  using assms(2,3)
proof (induction pre arbitrary: w)
  case Nil
  from handle_command_no_faults[OF assms(1,4)] obtain c w' where
    h: "handle_command env t (ROWS prev_key [], delivered) (w\<lparr>trace := trace w @ [Check_aborted], trace := trace w @ [Check_aborted] @ [Read_command]\<rparr>) = (None, c, w')"
    by blast
  with handle_command_control[OF h] have "c = Break" by simp
  with h show ?case
    by (simp add: sync_table_loop.simps[of env t "(ROWS prev_key [], delivered) # rest"] perform_no_faults[OF assms(1)])
next
  case (Cons m pre)
  from Cons.prems have hm: "handled t m" and nm: "\<forall>p. fst m \<noteq> ROWS p []" by simp_all
  from handle_command_no_faults[OF assms(1) hm] obtain c w' where
    h: "handle_command env t m (w\<lparr>trace := trace w @ [Check_aborted], trace := trace w @ [Check_aborted] @ [Read_command]\<rparr>) = (None, c, w')"
    by blast
  with handle_command_control[OF h] nm have c: "c = Continue" by (cases c) auto
  from Cons.IH[of w'] Cons.prems obtain w'' where
    "sync_table_loop env t (pre @ (ROWS prev_key [], delivered) # rest) w' = (None, w'', rest)" by auto
  with h c show ?case
    by (simp add: sync_table_loop.simps[of env t "m # pre @ (ROWS prev_key [], delivered) # rest"] perform_no_faults[OF assms(1)])
qed

text \<open>
  C5: the per-table loop ends (other than by an exception) exactly when a plain ROWS message
  with an empty last_key is received; ROWS messages with a last_key and the combined
  messages, whatever their keys, keep the dialogue open.
\<close>

theorem table_loop_ends_on_final_rows:
  "(sync_table_loop env t ms w = (None, w', rest) \<longrightarrow>
      (\<exists>pre prev_key delivered. ms = pre @ (ROWS prev_key [], delivered) # rest \<and>
         (\<forall>m \<in> set pre. \<forall>p. fst m \<noteq> ROWS p [])))
   \<and> (handle_command env t m w = (None, c, w') \<longrightarrow> (c = Break \<longleftrightarrow> (\<exists>prev_key. fst m = ROWS prev_key [])))
   \<and> ((\<forall>n c. faults env n c = None) \<and> list_all (handled t) pre \<and> (\<forall>m \<in> set pre. \<forall>p. fst m \<noteq> ROWS p [])
        \<and> handled t (ROWS prev_key [], delivered) \<longrightarrow>
      (\<exists>w''. sync_table_loop env t (pre @ (ROWS prev_key [], delivered) # rest) w = (None, w'', rest)))"
  using sync_table_loop_returns[of env t ms w w' rest] handle_command_control[of env t m w c w']
    sync_table_loop_reaches_final_rows[of env t pre prev_key delivered rest w]
  by blast

theorem table_loop_ends_on_final_rows_witness:
  "\<exists>w''. sync_table_loop (no_faults [footbl]) footbl
     ([(ROWS_AND_HASH_NEXT [] [] [VInt 5] ''h'', []), (ROWS [] [VInt 2], [[VInt 2, VInt 10, VStr ''test'']])]
       @ (ROWS [VInt 2] [], []) # [(OTHER 99, [])])
     (fresh_worker []) = (None, w'', [(OTHER 99, [])])"
proof -
  have a: "\<forall>n c. faults (no_faults [footbl]) n c = None" by (simp add: no_faults_def)
  have b: "list_all (handled footbl) [(ROWS_AND_HASH_NEXT [] [] [VInt 5] ''h'', []), (ROWS [] [VInt 2], [[VInt 2, VInt 10, VStr ''test'']])]"
    by code_simp
  have c: "\<forall>m \<in> set [(ROWS_AND_HASH_NEXT [] [] [VInt 5] ''h'', []), (ROWS [] [VInt 2], [[VInt 2, VInt 10, VStr ''test'']])]. \<forall>p. fst m \<noteq> ROWS p []"
    by simp
  have d: "handled footbl (ROWS [VInt 2] [], [])" by simp
  from table_loop_ends_on_final_rows
         [where env = "no_faults [footbl]" and t = footbl and w = "fresh_worker []"
            and pre = "[(ROWS_AND_HASH_NEXT [] [] [VInt 5] ''h'', []), (ROWS [] [VInt 2], [[VInt 2, VInt 10, VStr ''test'']])]"
            and prev_key = "[VInt 2]" and delivered = "[]" and rest = "[(OTHER 99, [])]"]
       a b c d
  show ?thesis by blast
qed

text \<open>
  C6: for a combined reply the worker checks the hash and sends its next command before it
  applies the streamed rows: the rows are applied only in a turn whose trace already holds
  the call that checked the hash and sent the next command.
\<close>

theorem combined_reply_sends_before_applying:
  assumes "cmd = ROWS_AND_HASH_NEXT prev_key last_key next_key h \<and> failed = None \<or>
           (\<exists>f. cmd = ROWS_AND_HASH_FAIL prev_key last_key next_key f h \<and> failed = Some f)"
    and "handle_command env t (cmd, delivered) w = (r, c, w')"
  shows "c = Continue \<and>
         (r \<noteq> None \<and> w' = w
          \<or> r \<noteq> None \<and> w' = w\<lparr>trace := trace w @ [Check_hash_and_choose_next_range last_key next_key failed h]\<rparr>
          \<or> r = None \<and> w' = (write_database (apply_rows t prev_key last_key delivered) w)
               \<lparr>trace := trace w @ [Check_hash_and_choose_next_range last_key next_key failed h,
                                     Stream_from_input prev_key last_key]\<rparr>)"
proof -
  let ?check = "Check_hash_and_choose_next_range last_key next_key failed h"
  from assms have run: "run_steps [perform env ?check id, stream_from_input env t prev_key last_key delivered] w = (r, w')"
    and c: "c = Continue"
    by (auto split: prod.splits)
  obtain r1 w1 where p: "perform env ?check id w = (r1, w1)" by (cases "perform env ?check id w")
  show ?thesis
  proof (cases r1)
    case (Some e)
    with p run perform_cases[OF p] c show ?thesis by auto
  next
    case None
    with perform_cases[OF p] have w1: "w1 = w\<lparr>trace := trace w @ [?check]\<rparr>" by simp
    from None p run have s: "stream_from_input env t prev_key last_key delivered w1 = (r, w')"
      by (cases "stream_from_input env t prev_key last_key delivered w1") (auto split: option.splits)
    from stream_from_input_cases[OF s] w1 c show ?thesis
      by (auto simp add: write_database_def split: option.splits)
  qed
qed

theorem combined_reply_sends_before_applying_witness:
  "fst (handle_command (no_faults [footbl]) footbl
          (ROWS_AND_HASH_NEXT [] [VInt 2] [VInt 5] ''h'', [[VInt 2, VInt 10, VStr ''test'']]) (fresh_worker [])) = None
   \<and> trace (snd (snd (handle_command (no_faults [footbl]) footbl
          (ROWS_AND_HASH_NEXT [] [VInt 2] [VInt 5] ''h'', [[VInt 2, VInt 10, VStr ''test'']]) (fresh_worker []))))
       = [Check_hash_and_choose_next_range [VInt 2] [VInt 5] None ''h'', Stream_from_input [] [VInt 2]]"
proof -
  let ?res = "handle_command (no_faults [footbl]) footbl
          (ROWS_AND_HASH_NEXT [] [VInt 2] [VInt 5] ''h'', [[VInt 2, VInt 10, VStr ''test'']]) (fresh_worker [])"
  have a: "ROWS_AND_HASH_NEXT [] [VInt 2] [VInt 5] ''h'' = ROWS_AND_HASH_NEXT [] [VInt 2] [VInt 5] ''h'' \<and> (None :: ColumnValues option) = None \<or>
           (\<exists>f. ROWS_AND_HASH_NEXT [] [VInt 2] [VInt 5] ''h'' = ROWS_AND_HASH_FAIL [] [VInt 2] [VInt 5] f ''h'' \<and> None = Some f)"
    by simp
  have b: "?res = (fst ?res, fst (snd ?res), snd (snd ?res))" by simp
  have n: "fst ?res = None" by code_simp
  have t0: "trace (fresh_worker []) = []" by (simp add: fresh_worker_def)
  from combined_reply_sends_before_applying[OF a b] n t0
  show ?thesis by auto
qed

section \<open>Properties of the worker's run\<close>

lemma run_steps_Cons_None:
  "run_steps (s # ss) w = (None, w') \<longleftrightarrow> (\<exists>w1. s w = (None, w1) \<and> run_steps ss w1 = (None, w'))"
  by (cases "s w") (auto split: option.splits)

lemma handshake_perform:
  "is_handshake_call c \<Longrightarrow> handshake_step (perform env c id)"
  unfolding handshake_step_def
proof (intro allI impI)
  fix w r w'
  assume c: "is_handshake_call c" and p: "perform env c id w = (r, w')"
  from perform_cases[OF p] show "\<exists>evs. w' = w\<lparr>trace := trace w @ evs\<rparr> \<and> list_all is_handshake_call evs"
  proof
    assume "r = None \<and> faults env (length (trace w)) c = None \<and> w' = (id w)\<lparr>trace := trace w @ [c]\<rparr>"
    with c have "w' = w\<lparr>trace := trace w @ [c]\<rparr> \<and> list_all is_handshake_call [c]" by simp
    then show ?thesis by blast
  next
    assume "r \<noteq> None \<and> faults env (length (trace w)) c = r \<and> w' = w"
    then have "w' = w\<lparr>trace := trace w @ []\<rparr> \<and> list_all is_handshake_call []" by simp
    then show ?thesis by blast
  qed
qed

lemma handshake_run_steps:
  "list_all handshake_step ss \<Longrightarrow> handshake_step (run_steps ss)"
proof (induction ss)
  case Nil
  have "\<And>w. w = w\<lparr>trace := trace w @ []\<rparr> \<and> list_all is_handshake_call []" by simp
  then show ?case unfolding handshake_step_def by (metis run_steps.simps(1) prod.inject)
next
  case (Cons s ss)
  then have s: "handshake_step s" and ss: "handshake_step (run_steps ss)" by simp_all
  show ?case unfolding handshake_step_def
  proof (intro allI impI)
    fix w r w'
    assume run: "run_steps (s # ss) w = (r, w')"
    obtain r1 w1 where s1: "s w = (r1, w1)" by (cases "s w")
    with s obtain evs1 where e1: "w1 = w\<lparr>trace := trace w @ evs1\<rparr>" "list_all is_handshake_call evs1"
      unfolding handshake_step_def by blast
    show "\<exists>evs. w' = w\<lparr>trace := trace w @ evs\<rparr> \<and> list_all is_handshake_call evs"
    proof (cases r1)
      case (Some e)
      with run s1 have "w' = w1" by simp
      with e1 show ?thesis by blast
    next
      case None
      with run s1 have "run_steps ss w1 = (r, w')" by simp
      with ss obtain evs2 where e2: "w' = w1\<lparr>trace := trace w1 @ evs2\<rparr>" "list_all is_handshake_call evs2"
        unfolding handshake_step_def by blast
      with e1 have "w' = w\<lparr>trace := trace w @ (evs1 @ evs2)\<rparr> \<and> list_all is_handshake_call (evs1 @ evs2)"
        by simp
      then show ?thesis by blast
    qed
  qed
qed

lemma handshake_negotiate_protocol: "handshake_step (negotiate_protocol env)"
  unfolding negotiate_protocol_def by (rule handshake_run_steps) (simp add: handshake_perform)

lemma handshake_negotiate_target_block_size: "handshake_step (negotiate_target_block_size env)"
  unfolding negotiate_target_block_size_def by (rule handshake_run_steps) (simp add: handshake_perform)

lemma handshake_share_snapshot: "handshake_step (share_snapshot opts env)"
  unfolding share_snapshot_def by (auto intro!: handshake_run_steps simp add: handshake_perform)

lemma handshake_populate_database_schema: "handshake_step (populate_database_schema opts env)"
  unfolding populate_database_schema_def by (auto intro!: handshake_run_steps simp add: handshake_perform)

lemma handshake_compare_schema: "handshake_step (compare_schema opts env)"
  unfolding compare_schema_def by (auto intro!: handshake_run_steps simp add: handshake_perform)

lemma handshake_enqueue_tables: "handshake_step (enqueue_tables opts env)"
  unfolding enqueue_tables_def by (auto intro!: handshake_run_steps simp add: handshake_perform)

lemma handshake_send_quit_command: "handshake_step (send_quit_command env)"
proof -
  have "handshake_step (perform env (Send_command QUIT) id)" by (simp add: handshake_perform)
  then show ?thesis
    unfolding handshake_step_def send_quit_command_def by (metis prod.inject prod.collapse)
qed

lemma table_effect_refl: "table_effect w w"
  by (simp add: table_effect_def)

lemma table_effect_trans:
  assumes "table_effect w w1" "table_effect w1 w2"
  shows "table_effect w w2"
proof -
  from assms obtain evs1 evs2 where
    "trace w1 = trace w @ evs1" "list_all is_table_call evs1"
    "trace w2 = trace w1 @ evs2" "list_all is_table_call evs2"
    unfolding table_effect_def by blast
  then have "trace w2 = trace w @ (evs1 @ evs2) \<and> list_all is_table_call (evs1 @ evs2)" by simp
  then have "\<exists>evs. trace w2 = trace w @ evs \<and> list_all is_table_call evs" by blast
  with assms show ?thesis unfolding table_effect_def by auto
qed

lemma table_effect_input [simp]: "table_effect w (w'\<lparr>input := ms\<rparr>) = table_effect w w'"
  by (simp add: table_effect_def)

lemma table_effect_perform:
  assumes "is_table_call c" "perform env c id w = (r, w')"
  shows "table_effect w w'"
proof -
  from perform_cases[OF assms(2)] have "w' = w\<lparr>trace := trace w @ [c]\<rparr> \<or> w' = w" by auto
  then show ?thesis
  proof
    assume "w' = w\<lparr>trace := trace w @ [c]\<rparr>"
    with assms(1) have "trace w' = trace w @ [c] \<and> list_all is_table_call [c]"
      and "uncommitted w' = uncommitted w" and "client_database w' = client_database w" by simp_all
    then show ?thesis unfolding table_effect_def by metis
  qed (simp add: table_effect_refl)
qed

lemma table_effect_perform_call:
  "perform env c id w = (r, w') \<Longrightarrow> is_table_call c \<Longrightarrow> table_effect w w'"
  by (rule table_effect_perform)

lemma table_effect_check_hash:
  assumes "perform env (Check_hash_and_choose_next_range a b f h) id w = (r, w')"
  shows "table_effect w w'"
  using assms by (rule table_effect_perform_call) simp

lemma table_effect_stream_from_input:
  assumes "stream_from_input env t prev_key last_key delivered w = (r, w')"
  shows "table_effect w w'"
proof -
  let ?w = "(write_database (apply_rows t prev_key last_key delivered) w)\<lparr>trace := trace w @ [Stream_from_input prev_key last_key]\<rparr>"
  from stream_from_input_cases[OF assms] have "w' = ?w \<or> w' = w" by auto
  then show ?thesis
  proof
    assume w': "w' = ?w"
    then have "trace w' = trace w @ [Stream_from_input prev_key last_key] \<and> list_all is_table_call [Stream_from_input prev_key last_key]"
      by simp
    moreover from w' have "uncommitted w \<noteq> None \<longrightarrow> uncommitted w' \<noteq> None \<and> client_database w' = client_database w"
      by (auto simp add: write_database_def)
    ultimately show ?thesis unfolding table_effect_def by metis
  qed (simp add: table_effect_refl)
qed

lemma table_effect_handle_command:
  assumes "handle_command env t m w = (r, c, w')"
  shows "table_effect w w'"
proof (cases m)
  case (Pair cmd delivered)
  show ?thesis
  proof (cases cmd)
    case (HASH_NEXT p l h)
    with Pair assms show ?thesis
      by (auto split: prod.splits intro: table_effect_check_hash)
  next
    case (HASH_FAIL p l f h)
    with Pair assms show ?thesis
      by (auto split: prod.splits intro: table_effect_check_hash)
  next
    case (ROWS p l)
    with Pair assms show ?thesis
      by (auto split: prod.splits option.splits if_splits intro: table_effect_stream_from_input)
  next
    case (ROWS_AND_HASH_NEXT p l n h)
    with Pair assms show ?thesis
      by (auto split: prod.splits option.splits)
         (blast intro: table_effect_stream_from_input table_effect_check_hash table_effect_trans)+
  next
    case (ROWS_AND_HASH_FAIL p l n f h)
    with Pair assms show ?thesis
      by (auto split: prod.splits option.splits)
         (blast intro: table_effect_stream_from_input table_effect_check_hash table_effect_trans)+
  next
    case (OTHER v)
    with Pair assms show ?thesis by (simp add: table_effect_refl)
  qed
qed

lemma table_effect_sync_table_loop:
  "sync_table_loop env t ms w = (r, w', rest) \<Longrightarrow> table_effect w w'"
proof (induction ms arbitrary: w)
  case Nil
  obtain r1 w1 where p: "perform env Check_aborted id w = (r1, w1)" by (cases "perform env Check_aborted id w")
  then have "table_effect w w1" by (rule table_effect_perform_call) simp
  moreover from Nil p have "w' = w1"
    by (auto simp add: sync_table_loop.simps[of env t "[]"] split: option.splits)
  ultimately show ?case by simp
next
  case (Cons m ms)
  obtain r1 w1 where p1: "perform env Check_aborted id w = (r1, w1)" by (cases "perform env Check_aborted id w")
  then have e1: "table_effect w w1" by (rule table_effect_perform_call) simp
  show ?case
  proof (cases r1)
    case (Some e)
    with Cons.prems p1 have "w' = w1" by (simp add: sync_table_loop.simps[of env t "m # ms"])
    with e1 show ?thesis by simp
  next
    case None
    obtain r2 w2 where p2: "perform env Read_command id w1 = (r2, w2)" by (cases "perform env Read_command id w1")
    then have "table_effect w1 w2" by (rule table_effect_perform_call) simp
    with e1 have e2: "table_effect w w2" by (rule table_effect_trans)
    show ?thesis
    proof (cases r2)
      case (Some e)
      with Cons.prems p1 p2 None have "w' = w2" by (simp add: sync_table_loop.simps[of env t "m # ms"])
      with e2 show ?thesis by simp
    next
      case n2: None
      obtain r3 c w3 where h: "handle_command env t m w2 = (r3, c, w3)" by (cases "handle_command env t m w2")
      then have e3: "table_effect w w3" using e2 by (auto intro: table_effect_trans table_effect_handle_command)
      from Cons.prems p1 p2 None n2 h
      have "w' = w3 \<or> sync_table_loop env t ms w3 = (r, w', rest)"
        by (auto simp add: sync_table_loop.simps[of env t "m # ms"] split: option.splits loop_control.splits)
      then show ?thesis using e3 Cons.IH by (auto intro: table_effect_trans)
    qed
  qed
qed

lemma table_step_sync_table: "table_step (sync_table env t)"
  unfolding table_step_def
proof (intro allI impI)
  fix w r w'
  assume a: "sync_table env t w = (r, w')"
  obtain r1 w1 where p: "perform env (Send_command (OPEN (name t))) id w = (r1, w1)"
    by (cases "perform env (Send_command (OPEN (name t))) id w")
  then have e1: "table_effect w w1" by (rule table_effect_perform_call) simp
  show "table_effect w w'"
  proof (cases r1)
    case (Some e)
    with a p have "w' = w1" by (simp add: sync_table_def)
    with e1 show ?thesis by simp
  next
    case None
    obtain r2 w2 rest where l: "sync_table_loop env t (input w1) w1 = (r2, w2, rest)"
      by (cases "sync_table_loop env t (input w1) w1")
    with a p None have "w' = w2\<lparr>input := rest\<rparr>" by (simp add: sync_table_def)
    with table_effect_sync_table_loop[OF l] e1 show ?thesis by (auto intro: table_effect_trans)
  qed
qed

lemma table_step_sync_popped: "table_step (sync_popped env ts)"
proof (induction ts)
  case Nil
  show ?case unfolding table_step_def by (auto intro: table_effect_perform_call)
next
  case (Cons t ts)
  show ?case unfolding table_step_def
  proof (intro allI impI)
    fix w r w'
    assume a: "sync_popped env (t # ts) w = (r, w')"
    obtain r1 w1 where p: "perform env Pop id w = (r1, w1)" by (cases "perform env Pop id w")
    then have e1: "table_effect w w1" by (rule table_effect_perform_call) simp
    obtain r2 w2 where s: "sync_table env t w1 = (r2, w2)" by (cases "sync_table env t w1")
    then have e2: "table_effect w w2"
      using e1 table_step_sync_table[of env t] unfolding table_step_def by (blast intro: table_effect_trans)
    from a p s have "w' = w1 \<or> w' = w2 \<or> sync_popped env ts w2 = (r, w')"
      by (auto split: option.splits)
    then show "table_effect w w'"
      using e1 e2 Cons.IH unfolding table_step_def by (blast intro: table_effect_trans)
  qed
qed

lemma run_steps_append_None:
  "run_steps (xs @ ys) w = (None, w') \<longleftrightarrow> (\<exists>w1. run_steps xs w = (None, w1) \<and> run_steps ys w1 = (None, w'))"
proof (induction xs arbitrary: w)
  case Nil
  then show ?case by simp
next
  case (Cons s xs)
  show ?case
  proof (cases "s w")
    case (Pair r1 w1)
    then show ?thesis using Cons.IH[of w1] by (cases r1) auto
  qed
qed

lemma sync_tables_shape:
  assumes "sync_tables env w = (r, w')"
  shows "\<exists>tbl. list_all is_table_call tbl \<and>
           (uncommitted w \<noteq> None \<longrightarrow> uncommitted w' \<noteq> None \<and> client_database w' = client_database w) \<and>
           (r \<noteq> None \<and> trace w' = trace w
            \<or> r \<noteq> None \<and> trace w' = trace w @ Disable_referential_integrity # tbl
            \<or> r \<noteq> None \<and> trace w' = trace w @ Disable_referential_integrity # tbl @ [Wait_at_barrier]
            \<or> r = None \<and> trace w' = trace w @ Disable_referential_integrity # tbl @ [Wait_at_barrier, Enable_referential_integrity])"
proof -
  let ?off = "\<lambda>w. w\<lparr>referential_integrity := False\<rparr>"
  let ?on = "\<lambda>w. w\<lparr>referential_integrity := True\<rparr>"
  obtain r1 w1 where p1: "perform env Disable_referential_integrity ?off w = (r1, w1)"
    by (cases "perform env Disable_referential_integrity ?off w")
  show ?thesis
  proof (cases r1)
    case (Some e)
    with p1 assms perform_cases[OF p1] have "r \<noteq> None \<and> w' = w" by (auto simp add: sync_tables_def)
    then have "list_all is_table_call [] \<and>
           (uncommitted w \<noteq> None \<longrightarrow> uncommitted w' \<noteq> None \<and> client_database w' = client_database w) \<and>
           r \<noteq> None \<and> trace w' = trace w" by simp
    then show ?thesis by blast
  next
    case None
    with perform_cases[OF p1] have w1: "w1 = (?off w)\<lparr>trace := trace w @ [Disable_referential_integrity]\<rparr>" by auto
    obtain r2 w2 where p2: "sync_popped env (popped env) w1 = (r2, w2)" by (cases "sync_popped env (popped env) w1")
    with table_step_sync_popped[of env "popped env"] have e2: "table_effect w1 w2" unfolding table_step_def by blast
    then obtain tbl where tbl: "trace w2 = trace w1 @ tbl" "list_all is_table_call tbl" unfolding table_effect_def by blast
    from e2 w1 have db2: "uncommitted w \<noteq> None \<longrightarrow> uncommitted w2 \<noteq> None \<and> client_database w2 = client_database w"
      unfolding table_effect_def by simp
    from tbl w1 have t2: "trace w2 = trace w @ Disable_referential_integrity # tbl" by simp
    show ?thesis
    proof (cases r2)
      case (Some e)
      with p1 p2 None assms have "r \<noteq> None \<and> w' = w2" by (auto simp add: sync_tables_def)
      with tbl(2) db2 t2 show ?thesis by blast
    next
      case n2: None
      obtain r3 w3 where p3: "perform env Wait_at_barrier id w2 = (r3, w3)" by (cases "perform env Wait_at_barrier id w2")
      show ?thesis
      proof (cases r3)
        case (Some e)
        with p1 p2 p3 None n2 assms perform_cases[OF p3] have "r \<noteq> None \<and> w' = w2" by (auto simp add: sync_tables_def)
        with tbl(2) db2 t2 show ?thesis by blast
      next
        case n3: None
        with perform_cases[OF p3] have w3: "w3 = w2\<lparr>trace := trace w2 @ [Wait_at_barrier]\<rparr>" by auto
        obtain r4 w4 where p4: "perform env Enable_referential_integrity ?on w3 = (r4, w4)"
          by (cases "perform env Enable_referential_integrity ?on w3")
        from p1 p2 p3 p4 None n2 n3 assms have rw: "r = r4 \<and> w' = w4"
          by (auto simp add: sync_tables_def split: option.splits)
        from perform_cases[OF p4] show ?thesis
        proof
          assume "r4 = None \<and> faults env (length (trace w3)) Enable_referential_integrity = None \<and>
                  w4 = (?on w3)\<lparr>trace := trace w3 @ [Enable_referential_integrity]\<rparr>"
          with rw w3 t2 db2 have "r = None \<and> trace w' = trace w @ Disable_referential_integrity # tbl @ [Wait_at_barrier, Enable_referential_integrity]"
            and "uncommitted w \<noteq> None \<longrightarrow> uncommitted w' \<noteq> None \<and> client_database w' = client_database w"
            by simp_all
          with tbl(2) show ?thesis by blast
        next
          assume "r4 \<noteq> None \<and> faults env (length (trace w3)) Enable_referential_integrity = r4 \<and> w4 = w3"
          with rw w3 t2 db2 have "r \<noteq> None \<and> trace w' = trace w @ Disable_referential_integrity # tbl @ [Wait_at_barrier]"
            and "uncommitted w \<noteq> None \<longrightarrow> uncommitted w' \<noteq> None \<and> client_database w' = client_database w"
            by simp_all
          with tbl(2) show ?thesis by blast
        qed
      qed
    qed
  qed
qed

lemma table_calls_are_not_transaction_calls:
  "list_all is_table_call tbl \<Longrightarrow> Commit_transaction \<notin> set tbl \<and> Rollback_transaction \<notin> set tbl"
  by (auto simp add: list_all_iff)

lemma handshake_calls_are_not_transaction_calls:
  "list_all is_handshake_call evs \<Longrightarrow> Commit_transaction \<notin> set evs \<and> Rollback_transaction \<notin> set evs"
  by (auto simp add: list_all_iff)

lemma operator_body_rollback_success:
  assumes "rollback_after opts" "operator_body opts env w = (None, w')"
  shows "client_database w' = client_database w \<and> uncommitted w' = None \<and>
         (\<exists>evs quit. trace w' = trace w @ evs @ Rollback_transaction # quit \<and>
            Commit_transaction \<notin> set evs \<and> Rollback_transaction \<notin> set evs \<and>
            (quit = [] \<and> faults env (Suc (length (trace w @ evs))) (Send_command QUIT) \<noteq> None
             \<or> quit = [Send_command QUIT]))"
proof -
  let ?handshake = "[negotiate_protocol env, negotiate_target_block_size env, share_snapshot opts env,
                 populate_database_schema opts env]"
  let ?start = "perform env Start_write_transaction start_write_transaction"
  let ?schema = "[compare_schema opts env, enqueue_tables opts env]"
  let ?finish = "[rollback env, send_quit_command env]"
  have "operator_body opts env = run_steps (?handshake @ ?start # ?schema @ sync_tables env # ?finish)"
    using assms(1) by (simp add: operator_body_def)
  with assms(2) have "run_steps (?handshake @ ?start # ?schema @ sync_tables env # ?finish) w = (None, w')"
    by simp
  then obtain a where sa: "run_steps ?handshake w = (None, a)"
    and ra: "run_steps (?start # ?schema @ sync_tables env # ?finish) a = (None, w')"
    unfolding run_steps_append_None by blast
  from ra obtain b where sb: "?start a = (None, b)"
    and rb: "run_steps (?schema @ sync_tables env # ?finish) b = (None, w')"
    unfolding run_steps_Cons_None by blast
  from rb obtain c where sc: "run_steps ?schema b = (None, c)"
    and rc: "run_steps (sync_tables env # ?finish) c = (None, w')"
    unfolding run_steps_append_None by blast
  from rc obtain d where sd: "sync_tables env c = (None, d)"
    and rd: "run_steps ?finish d = (None, w')"
    unfolding run_steps_Cons_None by blast
  from rd obtain e where se: "rollback env d = (None, e)" and sf: "send_quit_command env e = (None, w')"
    unfolding run_steps_Cons_None by auto
  have "handshake_step (run_steps ?handshake)"
    by (rule handshake_run_steps)
       (simp add: handshake_negotiate_protocol handshake_negotiate_target_block_size
                  handshake_share_snapshot handshake_populate_database_schema)
  with sa obtain e1 where a: "a = w\<lparr>trace := trace w @ e1\<rparr>" and h1: "list_all is_handshake_call e1"
    unfolding handshake_step_def by blast
  from perform_cases[OF sb] have b: "b = (start_write_transaction a)\<lparr>trace := trace a @ [Start_write_transaction]\<rparr>"
    by simp
  have "handshake_step (run_steps ?schema)"
    by (rule handshake_run_steps) (simp add: handshake_compare_schema handshake_enqueue_tables)
  with sc obtain e2 where c: "c = b\<lparr>trace := trace b @ e2\<rparr>" and h2: "list_all is_handshake_call e2"
    unfolding handshake_step_def by blast
  from a b c have uc: "uncommitted c \<noteq> None" and dc: "client_database c = client_database w"
    and tc: "trace c = trace w @ e1 @ Start_write_transaction # e2"
    by (simp_all add: start_write_transaction_def)
  from sync_tables_shape[OF sd] uc obtain tbl where tbl: "list_all is_table_call tbl"
    and dd: "client_database d = client_database c"
    and td: "trace d = trace c @ Disable_referential_integrity # tbl @ [Wait_at_barrier, Enable_referential_integrity]"
    by auto
  from perform_cases[OF se[unfolded rollback_def]]
  have e: "e = (rollback_transaction d)\<lparr>trace := trace d @ [Rollback_transaction]\<rparr>" by simp
  let ?evs = "e1 @ Start_write_transaction # e2 @ Disable_referential_integrity # tbl @ [Wait_at_barrier, Enable_referential_integrity]"
  from e td tc have te: "trace e = trace w @ ?evs @ [Rollback_transaction]" by simp
  from e dd dc have de: "client_database e = client_database w" "uncommitted e = None"
    by (simp_all add: rollback_transaction_def)
  have no: "Commit_transaction \<notin> set ?evs \<and> Rollback_transaction \<notin> set ?evs"
    using handshake_calls_are_not_transaction_calls[OF h1] handshake_calls_are_not_transaction_calls[OF h2]
          table_calls_are_not_transaction_calls[OF tbl] by simp
  obtain rq wq where pq: "perform env (Send_command QUIT) id e = (rq, wq)"
    by (cases "perform env (Send_command QUIT) id e")
  with sf have w': "w' = wq" by (simp add: send_quit_command_def)
  from perform_cases[OF pq] have "wq = e\<lparr>trace := trace e @ [Send_command QUIT]\<rparr>
      \<or> faults env (length (trace e)) (Send_command QUIT) \<noteq> None \<and> wq = e"
    by auto
  then show ?thesis
  proof
    assume "wq = e\<lparr>trace := trace e @ [Send_command QUIT]\<rparr>"
    with w' te de have "client_database w' = client_database w \<and> uncommitted w' = None"
      and "trace w' = trace w @ ?evs @ Rollback_transaction # [Send_command QUIT]" by simp_all
    with no show ?thesis by blast
  next
    assume "faults env (length (trace e)) (Send_command QUIT) \<noteq> None \<and> wq = e"
    with w' te de have "client_database w' = client_database w \<and> uncommitted w' = None"
      and "trace w' = trace w @ ?evs @ Rollback_transaction # []"
      and "faults env (Suc (length (trace w @ ?evs))) (Send_command QUIT) \<noteq> None" by simp_all
    with no show ?thesis by blast
  qed
qed

lemma window_phase_append:
  "window_phase p (a @ b) = (case window_phase p a of None \<Rightarrow> None | Some q \<Rightarrow> window_phase q b)"
  by (induction a arbitrary: p) (auto split: option.splits)

lemma window_step_handshake:
  "is_handshake_call c \<Longrightarrow> p \<noteq> Checks_off \<Longrightarrow> window_step p c = Some p"
  by (cases "(p, c)" rule: window_step.cases) (auto elim: is_handshake_call.elims)

lemma window_phase_handshake:
  "list_all is_handshake_call evs \<Longrightarrow> p \<noteq> Checks_off \<Longrightarrow> window_phase p evs = Some p"
  by (induction evs) (simp_all add: window_step_handshake)

lemma window_step_table:
  "is_table_call c \<Longrightarrow> window_step Checks_off c = Some Checks_off"
  by (cases c) auto

lemma window_phase_table:
  "list_all is_table_call tbl \<Longrightarrow> window_phase Checks_off tbl = Some Checks_off"
  by (induction tbl) (simp_all add: window_step_table)

lemma keeps_window_handshake:
  assumes "handshake_step s" "p \<noteq> Checks_off"
  shows "keeps_window p p s"
  unfolding keeps_window_def
proof (intro allI impI)
  fix w r w' assume "s w = (r, w')"
  with assms(1) obtain evs where "w' = w\<lparr>trace := trace w @ evs\<rparr>" "list_all is_handshake_call evs"
    unfolding handshake_step_def by blast
  with assms(2) have "trace w' = trace w @ evs \<and> window_phase p evs \<noteq> None \<and> (r = None \<longrightarrow> window_phase p evs = Some p)"
    by (simp add: window_phase_handshake)
  then show "\<exists>evs. trace w' = trace w @ evs \<and> window_phase p evs \<noteq> None \<and> (r = None \<longrightarrow> window_phase p evs = Some p)"
    by blast
qed

lemma trace_effects [simp]:
  "trace (start_write_transaction w) = trace w"
  "trace (commit_transaction w) = trace w"
  "trace (rollback_transaction w) = trace w"
  by (simp_all add: start_write_transaction_def commit_transaction_def rollback_transaction_def split: option.splits)

lemma keeps_window_perform:
  assumes "window_step p c = Some p" "\<And>w. trace (effect w) = trace w"
  shows "keeps_window p p (perform env c effect)"
  unfolding keeps_window_def
proof (intro allI impI)
  fix w r w' assume a: "perform env c effect w = (r, w')"
  from perform_cases[OF a] assms
  have "trace w' = trace w @ [c] \<and> window_phase p [c] = Some p \<or> trace w' = trace w @ [] \<and> r \<noteq> None"
    by auto
  then show "\<exists>evs. trace w' = trace w @ evs \<and> window_phase p evs \<noteq> None \<and> (r = None \<longrightarrow> window_phase p evs = Some p)"
    by (metis option.distinct(1) window_phase.simps(1))
qed

lemma keeps_window_sync_tables: "keeps_window Checks_on Checks_restored (sync_tables env)"
  unfolding keeps_window_def
proof (intro allI impI)
  fix w r w' assume a: "sync_tables env w = (r, w')"
  from sync_tables_shape[OF a] obtain tbl where tbl: "list_all is_table_call tbl"
    and shape: "r \<noteq> None \<and> trace w' = trace w @ []
            \<or> r \<noteq> None \<and> trace w' = trace w @ Disable_referential_integrity # tbl
            \<or> r \<noteq> None \<and> trace w' = trace w @ Disable_referential_integrity # tbl @ [Wait_at_barrier]
            \<or> r = None \<and> trace w' = trace w @ Disable_referential_integrity # tbl @ [Wait_at_barrier, Enable_referential_integrity]"
    by auto
  have 1: "window_phase Checks_on (Disable_referential_integrity # tbl) = Some Checks_off"
    using tbl by (simp add: window_phase_table)
  have 2: "window_phase Checks_on (Disable_referential_integrity # tbl @ [Wait_at_barrier]) = Some Past_barrier"
    using tbl by (simp add: window_phase_append window_phase_table)
  have 3: "window_phase Checks_on (Disable_referential_integrity # tbl @ [Wait_at_barrier, Enable_referential_integrity]) = Some Checks_restored"
    using tbl by (simp add: window_phase_append window_phase_table)
  have 0: "window_phase Checks_on [] = Some Checks_on" by simp
  from shape 0 1 2 3
  show "\<exists>evs. trace w' = trace w @ evs \<and> window_phase Checks_on evs \<noteq> None \<and> (r = None \<longrightarrow> window_phase Checks_on evs = Some Checks_restored)"
    by (metis option.distinct(1))
qed

lemma keeps_window_Nil: "keeps_window p p (run_steps [])"
  unfolding keeps_window_def by (metis append_Nil2 option.distinct(1) prod.inject run_steps.simps(1) window_phase.simps(1))

lemma keeps_window_Cons:
  assumes "keeps_window p q s" "keeps_window q r (run_steps ss)"
  shows "keeps_window p r (run_steps (s # ss))"
  unfolding keeps_window_def
proof (intro allI impI)
  fix w res w' assume a: "run_steps (s # ss) w = (res, w')"
  obtain r1 w1 where s1: "s w = (r1, w1)" by (cases "s w")
  with assms(1) obtain e1 where e1: "trace w1 = trace w @ e1" "window_phase p e1 \<noteq> None"
    "r1 = None \<longrightarrow> window_phase p e1 = Some q"
    unfolding keeps_window_def by blast
  show "\<exists>evs. trace w' = trace w @ evs \<and> window_phase p evs \<noteq> None \<and> (res = None \<longrightarrow> window_phase p evs = Some r)"
  proof (cases r1)
    case (Some e)
    with a s1 have "w' = w1 \<and> res \<noteq> None" by auto
    with e1 show ?thesis by blast
  next
    case None
    with a s1 have "run_steps ss w1 = (res, w')" by simp
    with assms(2) obtain e2 where e2: "trace w' = trace w1 @ e2" "window_phase q e2 \<noteq> None"
      "res = None \<longrightarrow> window_phase q e2 = Some r"
      unfolding keeps_window_def by blast
    from None e1 e2 have "trace w' = trace w @ (e1 @ e2) \<and> window_phase p (e1 @ e2) \<noteq> None \<and>
        (res = None \<longrightarrow> window_phase p (e1 @ e2) = Some r)"
      by (simp add: window_phase_append)
    then show ?thesis by blast
  qed
qed

lemma keeps_window_send_quit_command: "keeps_window Checks_restored Checks_restored (send_quit_command env)"
  by (rule keeps_window_handshake) (simp_all add: handshake_send_quit_command)

lemma keeps_window_operator_body: "keeps_window Checks_on Checks_restored (operator_body opts env)"
proof -
  have finish: "keeps_window Checks_restored Checks_restored (if rollback_after opts then rollback env else commit env)"
    by (simp add: rollback_def commit_def keeps_window_perform)
  show ?thesis
    unfolding operator_body_def
    by (intro keeps_window_Cons[where q = Checks_on and p = Checks_on and r = Checks_restored and s = "negotiate_protocol env"]
              keeps_window_Cons[where q = Checks_on and p = Checks_on and r = Checks_restored and s = "negotiate_target_block_size env"]
              keeps_window_Cons[where q = Checks_on and p = Checks_on and r = Checks_restored and s = "share_snapshot opts env"]
              keeps_window_Cons[where q = Checks_on and p = Checks_on and r = Checks_restored and s = "populate_database_schema opts env"]
              keeps_window_Cons[where q = Checks_on and p = Checks_on and r = Checks_restored and s = "perform env Start_write_transaction start_write_transaction"]
              keeps_window_Cons[where q = Checks_on and p = Checks_on and r = Checks_restored and s = "compare_schema opts env"]
              keeps_window_Cons[where q = Checks_on and p = Checks_on and r = Checks_restored and s = "enqueue_tables opts env"]
              keeps_window_Cons[where q = Checks_restored and p = Checks_on and r = Checks_restored and s = "sync_tables env"]
              keeps_window_Cons[where q = Checks_restored and p = Checks_restored and r = Checks_restored and s = "if rollback_after opts then rollback env else commit env"]
              keeps_window_Cons[where q = Checks_restored and p = Checks_restored and r = Checks_restored and s = "send_quit_command env"]
              keeps_window_Nil keeps_window_sync_tables keeps_window_send_quit_command finish
              keeps_window_handshake handshake_negotiate_protocol handshake_negotiate_target_block_size
              handshake_share_snapshot handshake_populate_database_schema handshake_compare_schema
              handshake_enqueue_tables keeps_window_perform)
       simp_all
qed

lemma operator_call_trace:
  "\<exists>extra. trace (snd (operator_call opts env (q, w))) = trace (snd (operator_body opts env w)) @ extra \<and>
           (extra = [Close_output] \<or> extra = [Commit_transaction, Close_output] \<and> fst (operator_body opts env w) \<noteq> None)"
proof (cases "operator_body opts env w")
  case (Pair r w1)
  show ?thesis
  proof (cases r)
    case None
    with Pair show ?thesis by (simp add: operator_call_def close_output_def)
  next
    case (Some e)
    obtain rc wc where p: "perform env Commit_transaction commit_transaction w1 = (rc, wc)"
      by (cases "perform env Commit_transaction commit_transaction w1")
    from perform_cases[OF p] have "trace wc = trace w1 @ [Commit_transaction] \<or> trace wc = trace w1" by auto
    with Pair Some p show ?thesis
      by (auto simp add: operator_call_def handle_exception_def abort_def close_output_def Let_def)
  qed
qed

text \<open>
  C9: referential integrity checks are disabled before any table work and re-enabled only
  after the barrier that ends the table sync: in the trace of every run, whether it ends
  normally or by an exception, table work lies between the call that disables the checks
  and that barrier, and the call that re-enables them comes after that barrier.
\<close>

theorem integrity_disabled_during_table_sync:
  assumes "trace w = []"
  shows "window_phase Checks_on (trace (snd (operator_call opts env (q, w)))) \<noteq> None
       \<and> (fst (operator_body opts env w) = None \<longrightarrow>
            window_phase Checks_on (trace (snd (operator_call opts env (q, w)))) = Some Checks_restored)
       \<and> (\<forall>r w'. sync_tables env w = (r, w') \<longrightarrow>
            (\<exists>tbl. list_all is_table_call tbl \<and>
               (r \<noteq> None \<and> trace w' = []
                \<or> r \<noteq> None \<and> trace w' = Disable_referential_integrity # tbl
                \<or> r \<noteq> None \<and> trace w' = Disable_referential_integrity # tbl @ [Wait_at_barrier]
                \<or> r = None \<and> trace w' = Disable_referential_integrity # tbl @ [Wait_at_barrier, Enable_referential_integrity])))"
proof -
  obtain r w1 where b: "operator_body opts env w = (r, w1)" by (cases "operator_body opts env w")
  with keeps_window_operator_body[of opts env] assms obtain evs where
    evs: "trace w1 = evs" "window_phase Checks_on evs \<noteq> None" "r = None \<longrightarrow> window_phase Checks_on evs = Some Checks_restored"
    unfolding keeps_window_def by fastforce
  then obtain p where p: "window_phase Checks_on evs = Some p" by blast
  from operator_call_trace[of opts env q w] b evs(1) obtain extra where
    ex: "trace (snd (operator_call opts env (q, w))) = evs @ extra"
        "extra = [Close_output] \<or> extra = [Commit_transaction, Close_output]"
    by auto
  from ex(2) have "window_phase p extra = Some p" by auto
  with p ex(1) have c: "window_phase Checks_on (trace (snd (operator_call opts env (q, w)))) = Some p"
    by (simp add: window_phase_append)
  have s: "\<forall>r w'. sync_tables env w = (r, w') \<longrightarrow>
            (\<exists>tbl. list_all is_table_call tbl \<and>
               (r \<noteq> None \<and> trace w' = []
                \<or> r \<noteq> None \<and> trace w' = Disable_referential_integrity # tbl
                \<or> r \<noteq> None \<and> trace w' = Disable_referential_integrity # tbl @ [Wait_at_barrier]
                \<or> r = None \<and> trace w' = Disable_referential_integrity # tbl @ [Wait_at_barrier, Enable_referential_integrity]))"
  proof (intro allI impI)
    fix r w' assume "sync_tables env w = (r, w')"
    from sync_tables_shape[OF this] assms
    show "\<exists>tbl. list_all is_table_call tbl \<and>
               (r \<noteq> None \<and> trace w' = []
                \<or> r \<noteq> None \<and> trace w' = Disable_referential_integrity # tbl
                \<or> r \<noteq> None \<and> trace w' = Disable_referential_integrity # tbl @ [Wait_at_barrier]
                \<or> r = None \<and> trace w' = Disable_referential_integrity # tbl @ [Wait_at_barrier, Enable_referential_integrity])"
      by simp blast
  qed
  from c p evs(3) b s show ?thesis by simp
qed

lemma test_run_succeeds:
  "fst (operator_body test_options (no_faults [footbl]) (fresh_worker test_input)) = None"
  by code_simp

lemma test_run_trace:
  "trace (snd (operator_call test_options (no_faults [footbl]) (\<lparr>aborted = False, stderr = []\<rparr>, fresh_worker test_input))) =
     [Send_command PROTOCOL, Read_reply, Send_command TARGET_BLOCK_SIZE, Read_reply,
      Send_command WITHOUT_SNAPSHOT, Read_reply, Populate_database_schema, Start_write_transaction,
      Send_command SCHEMA, Read_reply, Check_schema_match, Enqueue, Wait_at_barrier,
      Disable_referential_integrity, Pop, Send_command (OPEN ''footbl''), Check_aborted, Read_command,
      Check_hash_and_choose_next_range [VInt 2] [VInt 5] None ''h'', Stream_from_input [] [VInt 2],
      Check_aborted, Read_command, Stream_from_input [VInt 2] [], Pop, Wait_at_barrier,
      Enable_referential_integrity, Rollback_transaction, Send_command QUIT, Close_output]"
  by code_simp

theorem integrity_disabled_during_table_sync_witness:
  "trace (fresh_worker test_input) = []
   \<and> fst (operator_body test_options (no_faults [footbl]) (fresh_worker test_input)) = None
   \<and> window_phase Checks_on
        (trace (snd (operator_call test_options (no_faults [footbl]) (\<lparr>aborted = False, stderr = []\<rparr>, fresh_worker test_input))))
       = Some Checks_restored"
proof -
  have t: "trace (fresh_worker test_input) = []" by (simp add: fresh_worker_def)
  from integrity_disabled_during_table_sync[OF t, of test_options "no_faults [footbl]" "\<lparr>aborted = False, stderr = []\<rparr>"]
       test_run_succeeds t
  show ?thesis by blast
qed

text \<open>
  C10: with the rollback_after option, a run that succeeds without an exception rolls its
  write transaction back and never commits it, leaves the destination database as it was,
  and afterwards sends QUIT (when sending QUIT does not itself fail, a failure the worker
  swallows) and closes its output.
\<close>

theorem rollback_after_rolls_back:
  assumes "rollback_after opts"
    and "fst (operator_body opts env w) = None"
    and "\<forall>n. faults env n (Send_command QUIT) = None"
  shows "fst (operator_call opts env (q, w)) = q
       \<and> client_database (snd (operator_call opts env (q, w))) = client_database w
       \<and> uncommitted (snd (operator_call opts env (q, w))) = None
       \<and> (\<exists>evs. trace (snd (operator_call opts env (q, w)))
                   = trace w @ evs @ [Rollback_transaction, Send_command QUIT, Close_output]
                \<and> Commit_transaction \<notin> set evs \<and> Rollback_transaction \<notin> set evs)"
proof -
  obtain w1 where b: "operator_body opts env w = (None, w1)"
    using assms(2) by (cases "operator_body opts env w") simp
  from operator_body_rollback_success[OF assms(1) b] assms(3) obtain evs where
    d: "client_database w1 = client_database w" "uncommitted w1 = None"
    and t: "trace w1 = trace w @ evs @ [Rollback_transaction, Send_command QUIT]"
    and n: "Commit_transaction \<notin> set evs" "Rollback_transaction \<notin> set evs"
    by auto
  from b have c: "operator_call opts env (q, w) = (q, close_output w1)" by (simp add: operator_call_def)
  from t have "trace (close_output w1) = trace w @ evs @ [Rollback_transaction, Send_command QUIT, Close_output]"
    by (simp add: close_output_def)
  with n have "\<exists>evs. trace (close_output w1) = trace w @ evs @ [Rollback_transaction, Send_command QUIT, Close_output]
                \<and> Commit_transaction \<notin> set evs \<and> Rollback_transaction \<notin> set evs" by blast
  with c d show ?thesis by (simp add: close_output_def)
qed

theorem rollback_after_rolls_back_witness:
  "rollback_after test_options
   \<and> fst (operator_body test_options (no_faults [footbl]) (fresh_worker test_input)) = None
   \<and> client_database (snd (operator_call test_options (no_faults [footbl]) (\<lparr>aborted = False, stderr = []\<rparr>, fresh_worker test_input)))
       = client_database (fresh_worker test_input)
   \<and> uncommitted (snd (operator_call test_options (no_faults [footbl]) (\<lparr>aborted = False, stderr = []\<rparr>, fresh_worker test_input))) = None"
proof -
  have r: "rollback_after test_options" by (simp add: test_options_def)
  have f: "\<forall>n. faults (no_faults [footbl]) n (Send_command QUIT) = None" by (simp add: no_faults_def)
  from rollback_after_rolls_back[OF r test_run_succeeds f, of "\<lparr>aborted = False, stderr = []\<rparr>"] r test_run_succeeds
  show ?thesis by blast
qed

text \<open>Without the option the same run commits, and the destination holds the streamed row.\<close>

lemma test_run_commits:
  "client_database (snd (operator_call (test_options\<lparr>rollback_after := False\<rparr>) (no_faults [footbl])
      (\<lparr>aborted = False, stderr = []\<rparr>, fresh_worker test_input))) ''footbl'' = [[VInt 2, VInt 10, VStr ''test'']]"
  by code_simp

section \<open>Properties of the exception handler\<close>

lemma operator_call_shared:
  "aborted (fst (operator_call opts env (q, w))) = (aborted q \<or> fst (operator_body opts env w) \<noteq> None)"
  "stderr (fst (operator_call opts env (q, w))) =
     (case fst (operator_body opts env w) of
        None \<Rightarrow> stderr q
      | Some e \<Rightarrow> if aborted q then stderr q else stderr q @ [e])"
  by (cases "operator_body opts env w"; cases "fst (operator_body opts env w)";
      simp add: operator_call_def handle_exception_def abort_def Let_def split: prod.splits)+

lemma run_workers_shared:
  "aborted (run_workers ws q) =
     (aborted q \<or> (\<exists>x \<in> set ws. case x of (opts, env, w) \<Rightarrow> fst (operator_body opts env w) \<noteq> None))
   \<and> stderr (run_workers ws q) =
       stderr q @ (if aborted q then []
                   else take 1 (List.map_filter (\<lambda>(opts, env, w). fst (operator_body opts env w)) ws))"
proof (induction ws arbitrary: q)
  case Nil
  then show ?case by (simp add: List.map_filter_simps)
next
  case (Cons x ws)
  obtain opts env w where x: "x = (opts, env, w)" by (cases x)
  show ?case
    using Cons.IH[of "fst (operator_call opts env (q, w))"]
    by (cases "fst (operator_body opts env w)")
       (auto simp add: x operator_call_shared List.map_filter_simps)
qed

text \<open>
  C8: a worker whose run raises sets the shared abort flag, and prints the error iff its
  call of abort was the first to set the flag; abort returns true exactly for that first
  call, so of the workers that fail only the first prints.
\<close>

theorem first_failing_worker_prints:
  "(fst (operator_body opts env w) = Some e \<longrightarrow>
      aborted (fst (operator_call opts env (q, w)))
      \<and> stderr (fst (operator_call opts env (q, w))) = (if fst (abort q) then stderr q @ [e] else stderr q))
   \<and> fst (abort q) = (\<not> aborted q) \<and> aborted (snd (abort q)) \<and> \<not> fst (abort (snd (abort q)))
   \<and> (aborted (run_workers ws q) \<longleftrightarrow>
        aborted q \<or> (\<exists>x \<in> set ws. case x of (opts, env, w) \<Rightarrow> fst (operator_body opts env w) \<noteq> None))
   \<and> stderr (run_workers ws q) =
       stderr q @ (if aborted q then []
                   else take 1 (List.map_filter (\<lambda>(opts, env, w). fst (operator_body opts env w)) ws))"
  using run_workers_shared[of ws q]
  by (auto simp add: operator_call_shared abort_def)

lemma failing_run_raises:
  "fst (operator_body test_options (failing_environment what) (fresh_worker [])) = Some (failure what)"
  by (simp add: operator_body_def negotiate_protocol_def perform_def failing_environment_def fresh_worker_def)

theorem first_failing_worker_prints_witness:
  "fst (operator_body test_options (failing_environment ''first'') (fresh_worker [])) = Some (failure ''first'')
   \<and> stderr (run_workers [(test_options, no_faults [], fresh_worker []),
                           (test_options, failing_environment ''first'', fresh_worker []),
                           (test_options, failing_environment ''second'', fresh_worker [])]
               \<lparr>aborted = False, stderr = []\<rparr>) = [failure ''first'']
   \<and> aborted (run_workers [(test_options, no_faults [], fresh_worker []),
                           (test_options, failing_environment ''first'', fresh_worker []),
                           (test_options, failing_environment ''second'', fresh_worker [])]
               \<lparr>aborted = False, stderr = []\<rparr>)"
proof -
  have ok: "fst (operator_body test_options (no_faults []) (fresh_worker [])) = None" by code_simp
  from first_failing_worker_prints
         [of test_options "failing_environment ''first''" "fresh_worker []" "failure ''first''"
             "\<lparr>aborted = False, stderr = []\<rparr>"
             "[(test_options, no_faults [], fresh_worker []),
               (test_options, failing_environment ''first'', fresh_worker []),
               (test_options, failing_environment ''second'', fresh_worker [])]"]
       ok failing_run_raises[of "''first''"] failing_run_raises[of "''second''"]
  show ?thesis by (simp add: List.map_filter_simps)
qed

section \<open>Properties of the top-level process\<close>

lemma foldl_conj: "foldl (\<lambda>success waited. success \<and> waited) b xs = (b \<and> list_all id xs)"
  by (induction xs arbitrary: b) auto

lemma exit_code_of_children:
  assumes "parsing args = Parsed" "help_count args = 0" "\<not> spawning_raises args"
  shows "exit_code args = (if list_all id (children args) then 0 else 1)"
  using assms by (simp add: exit_code_def main_def main_try_def foldl_conj Let_def)

lemma exit_code_of_option_error:
  assumes "parsing args = Required_option \<or> parsing args = Validation_error"
  shows "exit_code args = 1"
  using assms by (auto simp add: exit_code_def main_def main_try_def show_help_def)

text \<open>
  C7: the process exits with 0 when every child succeeds and with 1 when a child fails; but
  when an exception is raised during setup, the handler of \<open>main\<close> prints it and returns
  nothing, so the exit code is 0 and not 1.
\<close>

theorem exit_code_after_setup_exception:
  "exit_code \<lparr> parsing = Parsed, help_count = 0, spawning_raises = True, children = [] \<rparr> = 0"
  by (simp add: exit_code_def main_def main_try_def)

end
